theory Spec2Isabelle
  imports Main "HOL-Library.Word"
begin

section \<open>Outcomes of a call\<close>

text \<open>
  A call of the C++ code either returns, or an exception leaves it, or it runs into
  undefined behaviour.  The last two are the \<open>Inl\<close> side of a sum; a call that
  never returns (an endless loop, a mutex that is never released) is the value \<open>None\<close>
  of the list operations further down.
\<close>

datatype exn = invalid_argument | length_error | bad_alloc

datatype ub = out_of_range | signed_overflow | bad_pointer | mutex_misuse

datatype failure = Thrown exn | Undefined ub

section \<open>concurrent\_ds.cpp: the counters\<close>

text \<open>
  \<open>int\<close> is taken to be 32 bits wide.  The value of a \<open>std::atomic<int>\<close> and the
  local \<open>total\<close> (\<open>tot\<close> below) are \<open>32 word\<close>, read as two's complement by \<open>sint\<close>, because the code
  does arithmetic on them.  Thread ids, capacities and loop indices are \<open>int\<close>: the only
  arithmetic on them is \<open>i++\<close> below a bound that is itself an \<open>int\<close> of the program.
\<close>

definition INT_MAX :: int where
  "INT_MAX = 2147483647"

definition INT_MIN :: int where
  "INT_MIN = - 2147483648"

text \<open>
  \<open>fetch_add\<close> on an atomic signed integer is computed as on the unsigned type and has no
  undefined results: it wraps.  The model returns the value stored.
\<close>

definition fetch_add :: "32 word \<Rightarrow> 32 word \<Rightarrow> 32 word" where
  "fetch_add v d = v + d"

text \<open>\<open>total += x\<close> on plain \<open>int\<close>: a result outside the type is undefined behaviour.\<close>

definition add_int :: "32 word \<Rightarrow> 32 word \<Rightarrow> failure + 32 word" where
  "add_int a b =
     (if INT_MIN \<le> sint a + sint b \<and> sint a + sint b \<le> INT_MAX then Inr (a + b)
      else Inl (Undefined signed_overflow))"

subsection \<open>ApproximateConcurrentCounter (the vector of counters)\<close>

record ApproximateConcurrentCounter =
  thread_counters :: "32 word list"
  num_threads :: int

text \<open>The loop of the constructor: \<open>for (int i = 0; i < threads; i++) push_back(0)\<close>.\<close>

function push_back_loop :: "int \<Rightarrow> int \<Rightarrow> 32 word list \<Rightarrow> 32 word list" where
  "push_back_loop i threads v =
     (if i < threads then push_back_loop (i + 1) threads (v @ [0]) else v)"
  by pat_completeness auto
termination
  by (relation "measure (\<lambda>(i, threads, v). nat (threads - i))") auto

text \<open>
  \<open>reserve(threads)\<close> takes a \<open>size_type\<close>: a negative \<open>threads\<close> converts to a value
  above \<open>max_size()\<close>, and \<open>reserve\<close> throws \<open>std::length_error\<close>.  Exhausted memory
  is not modelled for the counters.
\<close>

definition ApproximateConcurrentCounter_ctor ::
  "int \<Rightarrow> failure + ApproximateConcurrentCounter" where
  "ApproximateConcurrentCounter_ctor threads =
     (if threads < 0 then Inl (Thrown length_error)
      else Inr \<lparr>thread_counters = push_back_loop 0 threads [], num_threads = threads\<rparr>)"

text \<open>\<open>thread_counters[thread_id]\<close> outside the vector is undefined behaviour.\<close>

definition increment ::
  "int \<Rightarrow> ApproximateConcurrentCounter \<Rightarrow> failure + ApproximateConcurrentCounter" where
  "increment thread_id c =
     (if 0 \<le> thread_id \<and> thread_id < int (length (thread_counters c))
      then Inr (c\<lparr>thread_counters :=
              (thread_counters c)[nat thread_id :=
                 fetch_add (thread_counters c ! nat thread_id) 1]\<rparr>)
      else Inl (Undefined out_of_range))"

function count_loop ::
  "32 word list \<Rightarrow> int \<Rightarrow> int \<Rightarrow> 32 word \<Rightarrow> failure + 32 word" where
  "count_loop cs i n tot =
     (if i < n then
        (if 0 \<le> i \<and> i < int (length cs) then
           (case add_int tot (cs ! nat i) of
              Inl e \<Rightarrow> Inl e
            | Inr t \<Rightarrow> count_loop cs (i + 1) n t)
         else Inl (Undefined out_of_range))
      else Inr tot)"
  by pat_completeness auto
termination
  by (relation "measure (\<lambda>(cs, i, n, tot). nat (n - i))") auto

definition get_approximate_count :: "ApproximateConcurrentCounter \<Rightarrow> failure + 32 word" where
  "get_approximate_count c = count_loop (thread_counters c) 0 (num_threads c) 0"

definition get_thread_count ::
  "int \<Rightarrow> ApproximateConcurrentCounter \<Rightarrow> failure + 32 word" where
  "get_thread_count thread_id c =
     (if 0 \<le> thread_id \<and> thread_id < int (length (thread_counters c))
      then Inr (thread_counters c ! nat thread_id)
      else Inl (Undefined out_of_range))"

subsection \<open>ApproximateConcurrentCounterArray (the array of counters)\<close>

definition MAX_THREADS :: int where
  "MAX_THREADS = 16"

text \<open>
  The member \<open>std::atomic<int> thread_counters[MAX_THREADS]\<close> is a function from the
  index to the value, with the bound \<open>MAX_THREADS\<close> checked at each subscript.  The
  constructor stores 0 only into the first \<open>threads\<close> cells; what the others hold is
  whatever the storage held, the argument \<open>mem\<close> of the constructor.
\<close>

record ApproximateConcurrentCounterArray =
  thread_counters_arr :: "nat \<Rightarrow> 32 word"
  num_threads_arr :: int

function store_loop ::
  "int \<Rightarrow> int \<Rightarrow> (nat \<Rightarrow> 32 word) \<Rightarrow> failure + (nat \<Rightarrow> 32 word)" where
  "store_loop i threads a =
     (if i < threads then
        (if 0 \<le> i \<and> i < MAX_THREADS then store_loop (i + 1) threads (a(nat i := 0))
         else Inl (Undefined out_of_range))
      else Inr a)"
  by pat_completeness auto
termination
  by (relation "measure (\<lambda>(i, threads, a). nat (threads - i))") auto

definition ApproximateConcurrentCounterArray_ctor ::
  "(nat \<Rightarrow> 32 word) \<Rightarrow> int \<Rightarrow> failure + ApproximateConcurrentCounterArray" where
  "ApproximateConcurrentCounterArray_ctor mem threads =
     (if threads > MAX_THREADS then Inl (Thrown invalid_argument)
      else (case store_loop 0 threads mem of
              Inl e \<Rightarrow> Inl e
            | Inr a \<Rightarrow> Inr \<lparr>thread_counters_arr = a, num_threads_arr = threads\<rparr>))"

definition increment_arr ::
  "int \<Rightarrow> ApproximateConcurrentCounterArray \<Rightarrow> failure + ApproximateConcurrentCounterArray" where
  "increment_arr thread_id c =
     (if 0 \<le> thread_id \<and> thread_id < MAX_THREADS
      then Inr (c\<lparr>thread_counters_arr :=
              (thread_counters_arr c)(nat thread_id :=
                 fetch_add (thread_counters_arr c (nat thread_id)) 1)\<rparr>)
      else Inl (Undefined out_of_range))"

function count_loop_arr ::
  "(nat \<Rightarrow> 32 word) \<Rightarrow> int \<Rightarrow> int \<Rightarrow> 32 word \<Rightarrow> failure + 32 word" where
  "count_loop_arr a i n tot =
     (if i < n then
        (if 0 \<le> i \<and> i < MAX_THREADS then
           (case add_int tot (a (nat i)) of
              Inl e \<Rightarrow> Inl e
            | Inr t \<Rightarrow> count_loop_arr a (i + 1) n t)
         else Inl (Undefined out_of_range))
      else Inr tot)"
  by pat_completeness auto
termination
  by (relation "measure (\<lambda>(a, i, n, tot). nat (n - i))") auto

definition get_approximate_count_arr ::
  "ApproximateConcurrentCounterArray \<Rightarrow> failure + 32 word" where
  "get_approximate_count_arr c =
     count_loop_arr (thread_counters_arr c) 0 (num_threads_arr c) 0"

definition get_thread_count_arr ::
  "int \<Rightarrow> ApproximateConcurrentCounterArray \<Rightarrow> failure + 32 word" where
  "get_thread_count_arr thread_id c =
     (if 0 \<le> thread_id \<and> thread_id < MAX_THREADS
      then Inr (thread_counters_arr c (nat thread_id))
      else Inl (Undefined out_of_range))"

subsection \<open>Sequences of calls on a counter\<close>

text \<open>
  A completed run of the workers is the list of the thread ids of its \<open>increment\<close>
  calls, in the order in which they took effect.  Worker \<open>i\<close> has issued
  \<open>count_list ids i\<close> of them.
\<close>

fun increments ::
  "int list \<Rightarrow> ApproximateConcurrentCounter \<Rightarrow> failure + ApproximateConcurrentCounter" where
  "increments [] c = Inr c"
| "increments (t # ts) c =
     (case increment t c of Inl e \<Rightarrow> Inl e | Inr c' \<Rightarrow> increments ts c')"

text \<open>Construct with capacity \<open>C\<close>, run the increments, then call \<open>get_approximate_count\<close>.\<close>

definition total_after :: "int \<Rightarrow> int list \<Rightarrow> failure + int" where
  "total_after C ids =
     (case ApproximateConcurrentCounter_ctor C of
        Inl e \<Rightarrow> Inl e
      | Inr c \<Rightarrow>
          (case increments ids c of
             Inl e \<Rightarrow> Inl e
           | Inr c' \<Rightarrow> map_sum id sint (get_approximate_count c')))"

text \<open>The same, reading one slot with \<open>get_thread_count\<close> at the end.\<close>

definition slot_after :: "int \<Rightarrow> int list \<Rightarrow> int \<Rightarrow> failure + int" where
  "slot_after C ids t =
     (case ApproximateConcurrentCounter_ctor C of
        Inl e \<Rightarrow> Inl e
      | Inr c \<Rightarrow>
          (case increments ids c of
             Inl e \<Rightarrow> Inl e
           | Inr c' \<Rightarrow> map_sum id sint (get_thread_count t c')))"

text \<open>The number of increments issued: the sum of the \<open>k_i\<close> over the slots \<open>0 .. C - 1\<close>.\<close>

definition issued :: "int \<Rightarrow> int list \<Rightarrow> int" where
  "issued C ids = (\<Sum>i \<leftarrow> [0 ..< nat C]. int (count_list ids (int i)))"

datatype counter_op = Increment int | ReadSlot int | Total

text \<open>
  The results of the read operations of a sequence, in order.  A call that fails ends
  the run, and its failure is the last entry.
\<close>

fun run_counter ::
  "counter_op list \<Rightarrow> ApproximateConcurrentCounter \<Rightarrow> (failure + 32 word) list" where
  "run_counter [] c = []"
| "run_counter (Increment t # ops) c =
     (case increment t c of Inl e \<Rightarrow> [Inl e] | Inr c' \<Rightarrow> run_counter ops c')"
| "run_counter (ReadSlot t # ops) c =
     (case get_thread_count t c of Inl e \<Rightarrow> [Inl e] | Inr v \<Rightarrow> Inr v # run_counter ops c)"
| "run_counter (Total # ops) c =
     (case get_approximate_count c of Inl e \<Rightarrow> [Inl e] | Inr v \<Rightarrow> Inr v # run_counter ops c)"

fun run_counter_arr ::
  "counter_op list \<Rightarrow> ApproximateConcurrentCounterArray \<Rightarrow> (failure + 32 word) list" where
  "run_counter_arr [] c = []"
| "run_counter_arr (Increment t # ops) c =
     (case increment_arr t c of Inl e \<Rightarrow> [Inl e] | Inr c' \<Rightarrow> run_counter_arr ops c')"
| "run_counter_arr (ReadSlot t # ops) c =
     (case get_thread_count_arr t c of
        Inl e \<Rightarrow> [Inl e] | Inr v \<Rightarrow> Inr v # run_counter_arr ops c)"
| "run_counter_arr (Total # ops) c =
     (case get_approximate_count_arr c of
        Inl e \<Rightarrow> [Inl e] | Inr v \<Rightarrow> Inr v # run_counter_arr ops c)"

fun op_id_ok :: "int \<Rightarrow> counter_op \<Rightarrow> bool" where
  "op_id_ok C (Increment t) = (0 \<le> t \<and> t < C)"
| "op_id_ok C (ReadSlot t) = (0 \<le> t \<and> t < C)"
| "op_id_ok C Total = True"

text \<open>
  The two variants hold the same counters: the vector has exactly \<open>C\<close> cells, and the
  first \<open>C\<close> cells of the array hold the same values.
\<close>

definition same_counters ::
  "int \<Rightarrow> ApproximateConcurrentCounter \<Rightarrow> ApproximateConcurrentCounterArray \<Rightarrow> bool" where
  "same_counters C v a \<longleftrightarrow>
     num_threads v = C \<and> num_threads_arr a = C \<and> int (length (thread_counters v)) = C \<and>
     (\<forall>j < length (thread_counters v). thread_counters v ! j = thread_counters_arr a j)"

section \<open>hand\_lock\_ll.cpp: the list\<close>

subsection \<open>Nodes, the free store and the list object\<close>

text \<open>
  A pointer is an address, 0 being \<open>nullptr\<close>.  The free store is a list of cells:
  the node at address \<open>p\<close> is cell \<open>p - 1\<close>, and a deleted node leaves \<open>None\<close>.
  \<open>n_lock\<close> says whether the node's mutex is held.
\<close>

type_synonym addr = nat

definition nullptr :: addr where
  "nullptr = 0"

record node_t =
  key :: int
  next_ptr :: addr
  n_lock :: bool

text \<open>What a run does that can be seen from outside: mutex calls and the keys printed.\<close>

datatype event = Lock addr | Unlock addr | Print int

record List_class =
  head :: addr
  tail :: addr
  size_fld :: int

text \<open>
  The list object together with the free store it allocates from, the number of nodes
  the free store can hold, and the trace of events so far.
\<close>

record world = List_class +
  heap :: "node_t option list"
  heap_limit :: nat
  events :: "event list"

text \<open>\<open>List list{}\<close>: the default member initialisers, on an empty free store.\<close>

definition List_ctor :: "nat \<Rightarrow> world" where
  "List_ctor limit =
     \<lparr>head = nullptr, tail = nullptr, size_fld = 1000,
      heap = [], heap_limit = limit, events = []\<rparr>"

text \<open>Dereferencing: \<open>None\<close> for \<open>nullptr\<close>, an address never allocated, or a deleted node.\<close>

definition cell :: "node_t option list \<Rightarrow> addr \<Rightarrow> node_t option" where
  "cell h p = (if p = nullptr \<or> length h < p then None else h ! (p - 1))"

text \<open>
  \<open>new node_t\<close>: a plain new-expression never yields \<open>nullptr\<close>.  It returns the address
  of a fresh node (\<open>next{nullptr}\<close>, the mutex free, the key not yet assigned and
  written as 0 here), or, when the free store is exhausted, throws \<open>std::bad_alloc\<close>,
  which is the result \<open>None\<close>.
\<close>

definition new_node_t :: "world \<Rightarrow> (addr \<times> world) option" where
  "new_node_t w =
     (if length (heap w) < heap_limit w
      then Some (Suc (length (heap w)),
                 w\<lparr>heap := heap w @ [Some \<lparr>key = 0, next_ptr = nullptr, n_lock = False\<rparr>]\<rparr>)
      else None)"

text \<open>
  \<open>n_lock.lock()\<close>.  In a run without other threads nobody releases a mutex that is
  held, so locking it never returns: the result \<open>None\<close>.
\<close>

definition lock :: "addr \<Rightarrow> world \<Rightarrow> (failure + world) option" where
  "lock p w =
     (case cell (heap w) p of
        None \<Rightarrow> Some (Inl (Undefined bad_pointer))
      | Some n \<Rightarrow>
          if n_lock n then None
          else Some (Inr (w\<lparr>heap := (heap w)[p - 1 := Some (n\<lparr>n_lock := True\<rparr>)],
                           events := events w @ [Lock p]\<rparr>)))"

text \<open>\<open>n_lock.unlock()\<close>; unlocking a mutex that is not held is undefined behaviour.\<close>

definition unlock :: "addr \<Rightarrow> world \<Rightarrow> failure + world" where
  "unlock p w =
     (case cell (heap w) p of
        None \<Rightarrow> Inl (Undefined bad_pointer)
      | Some n \<Rightarrow>
          if n_lock n
          then Inr (w\<lparr>heap := (heap w)[p - 1 := Some (n\<lparr>n_lock := False\<rparr>)],
                      events := events w @ [Unlock p]\<rparr>)
          else Inl (Undefined mutex_misuse))"

subsection \<open>List::insert\<close>

text \<open>
  The result is what the call returns or how it fails, with the world it leaves; \<open>None\<close>
  is a call that never returns.
\<close>

definition List_insert :: "int \<Rightarrow> world \<Rightarrow> ((failure + int) \<times> world) option" where
  "List_insert k w =
     (case new_node_t w of
        None \<Rightarrow> Some (Inl (Thrown bad_alloc), w)
      | Some (new_node, w1) \<Rightarrow>
          if new_node = nullptr then Some (Inr (- 1), w1)
          else
            (case cell (heap w1) new_node of
               None \<Rightarrow> Some (Inl (Undefined bad_pointer), w1)
             | Some nn \<Rightarrow>
                 let w2 = w1\<lparr>heap := (heap w1)[new_node - 1 :=
                                 Some (nn\<lparr>key := k, next_ptr := nullptr\<rparr>)]\<rparr>
                 in
                 if tail w2 = nullptr
                 then Some (Inr 0, w2\<lparr>head := new_node, tail := new_node\<rparr>)
                 else
                   (case lock (tail w2) w2 of
                      None \<Rightarrow> None
                    | Some (Inl e) \<Rightarrow> Some (Inl e, w2)
                    | Some (Inr w3) \<Rightarrow>
                        (case cell (heap w3) (tail w3) of
                           None \<Rightarrow> Some (Inl (Undefined bad_pointer), w3)
                         | Some tn \<Rightarrow>
                             let w4 = w3\<lparr>heap := (heap w3)[tail w3 - 1 :=
                                             Some (tn\<lparr>next_ptr := new_node\<rparr>)]\<rparr>;
                                 old_tail = tail w4;
                                 w5 = w4\<lparr>tail := new_node\<rparr>
                             in
                             (case unlock old_tail w5 of
                                Inl e \<Rightarrow> Some (Inl e, w5)
                              | Inr w6 \<Rightarrow> Some (Inr 0, w6))))))"

subsection \<open>List::traverse\<close>

text \<open>
  The loop may run forever (a cyclic chain, a mutex that is held), so it is a partial
  function: \<open>None\<close> is a traversal that does not return.  \<open>curr->next\<close> is read after
  the unlock, as in the source (whose \<open>curr\<close> is \<open>cur\<close> here).
\<close>

partial_function (option) traverse_loop ::
  "addr \<Rightarrow> world \<Rightarrow> ((failure + unit) \<times> world) option" where
  [code]: "traverse_loop cur w =
     (if cur = nullptr then Some (Inr (), w)
      else
        (case lock cur w of
           None \<Rightarrow> None
         | Some (Inl e) \<Rightarrow> Some (Inl e, w)
         | Some (Inr w1) \<Rightarrow>
             (case cell (heap w1) cur of
                None \<Rightarrow> Some (Inl (Undefined bad_pointer), w1)
              | Some n \<Rightarrow>
                  (case unlock cur (w1\<lparr>events := events w1 @ [Print (key n)]\<rparr>) of
                     Inl e \<Rightarrow> Some (Inl e, w1\<lparr>events := events w1 @ [Print (key n)]\<rparr>)
                   | Inr w3 \<Rightarrow>
                       (case cell (heap w3) cur of
                          None \<Rightarrow> Some (Inl (Undefined bad_pointer), w3)
                        | Some n' \<Rightarrow> traverse_loop (next_ptr n') w3)))))"

definition List_traverse :: "world \<Rightarrow> ((failure + unit) \<times> world) option" where
  "List_traverse w = traverse_loop (head w) w"

subsection \<open>The destructor\<close>

text \<open>
  \<open>delete temp\<close> destroys the node's mutex, which is undefined behaviour while the
  mutex is held, and gives the cell back.
\<close>

partial_function (option) dtor_loop :: "world \<Rightarrow> (failure + world) option" where
  [code]: "dtor_loop w =
     (if head w = nullptr then Some (Inr w)
      else
        (case cell (heap w) (head w) of
           None \<Rightarrow> Some (Inl (Undefined bad_pointer))
         | Some n \<Rightarrow>
             if n_lock n then Some (Inl (Undefined mutex_misuse))
             else dtor_loop (w\<lparr>head := next_ptr n, heap := (heap w)[head w - 1 := None]\<rparr>)))"

definition List_dtor :: "world \<Rightarrow> (failure + world) option" where
  "List_dtor w = dtor_loop w"

subsection \<open>Sequences of calls on a list\<close>

datatype list_op = Insert int | Traverse

text \<open>
  A run of calls made one after the other.  A caller that gets \<open>std::bad_alloc\<close> from
  \<open>insert\<close> goes on with the list as it is; undefined behaviour ends the run.
\<close>

fun run_list :: "list_op list \<Rightarrow> world \<Rightarrow> (failure + world) option" where
  "run_list [] w = Some (Inr w)"
| "run_list (Insert k # ops) w =
     (case List_insert k w of
        None \<Rightarrow> None
      | Some (Inl (Undefined u), w') \<Rightarrow> Some (Inl (Undefined u))
      | Some (Inl (Thrown x), w') \<Rightarrow> run_list ops w'
      | Some (Inr r, w') \<Rightarrow> run_list ops w')"
| "run_list (Traverse # ops) w =
     (case List_traverse w of
        None \<Rightarrow> None
      | Some (Inl e, w') \<Rightarrow> Some (Inl e)
      | Some (Inr u, w') \<Rightarrow> run_list ops w')"

text \<open>The number of \<open>insert\<close> calls of a run.\<close>

fun count_inserts :: "list_op list \<Rightarrow> nat" where
  "count_inserts [] = 0"
| "count_inserts (Insert k # ops) = Suc (count_inserts ops)"
| "count_inserts (Traverse # ops) = count_inserts ops"

text \<open>The keys a run has printed, in order.\<close>

fun printed :: "event list \<Rightarrow> int list" where
  "printed [] = []"
| "printed (Print k # es) = k # printed es"
| "printed (Lock p # es) = printed es"
| "printed (Unlock p # es) = printed es"

subsection \<open>Chains of nodes\<close>

text \<open>
  \<open>path h p as q\<close>: following the \<open>next\<close> links from \<open>p\<close> visits the live nodes \<open>as\<close>,
  none of whose mutexes is held, and then arrives at \<open>q\<close>.
\<close>

fun path :: "node_t option list \<Rightarrow> addr \<Rightarrow> addr list \<Rightarrow> addr \<Rightarrow> bool" where
  "path h p [] q = (p = q)"
| "path h p (a # as) q =
     (p = a \<and> (case cell h a of
                  None \<Rightarrow> False
                | Some n \<Rightarrow> \<not> n_lock n \<and> path h (next_ptr n) as q))"

text \<open>
  The list of a world consists of the nodes \<open>ps\<close>: they are the chain from \<open>head\<close> to
  \<open>nullptr\<close>, no node occurs twice, and \<open>tail\<close> is the last of them.
\<close>

definition list_at :: "world \<Rightarrow> addr list \<Rightarrow> bool" where
  "list_at w ps \<longleftrightarrow>
     path (heap w) (head w) ps nullptr \<and> distinct ps \<and>
     tail w = (if ps = [] then nullptr else last ps)"

definition key_at :: "node_t option list \<Rightarrow> addr \<Rightarrow> int" where
  "key_at h p = (case cell h p of None \<Rightarrow> 0 | Some n \<Rightarrow> key n)"

text \<open>\<open>reaches h p q\<close>: \<open>q\<close> is a live node reached from the live node \<open>p\<close> by \<open>next\<close> links.\<close>

inductive reaches :: "node_t option list \<Rightarrow> addr \<Rightarrow> addr \<Rightarrow> bool" where
  here: "cell h p = Some n \<Longrightarrow> reaches h p p"
| step: "cell h p = Some n \<Longrightarrow> reaches h (next_ptr n) q \<Longrightarrow> reaches h p q"

code_pred reaches .

text \<open>The events of one traversal of the nodes \<open>as\<close>.\<close>

fun visit_events :: "node_t option list \<Rightarrow> addr list \<Rightarrow> event list" where
  "visit_events h [] = []"
| "visit_events h (a # as) = Lock a # Print (key_at h a) # Unlock a # visit_events h as"

text \<open>The free store after the nodes \<open>as\<close> have been deleted.\<close>

fun freed :: "node_t option list \<Rightarrow> addr list \<Rightarrow> node_t option list" where
  "freed h [] = h"
| "freed h (a # as) = freed (h[a - 1 := None]) as"

text \<open>
  \<open>links_kept h h'\<close>: every node of \<open>h\<close> is still a node of \<open>h'\<close>, with the same key,
  and with the same \<open>next\<close> link unless that link was \<open>nullptr\<close> in \<open>h\<close>.
\<close>

definition links_kept :: "node_t option list \<Rightarrow> node_t option list \<Rightarrow> bool" where
  "links_kept h h' \<longleftrightarrow>
     (\<forall>p \<in> {1 .. length h}.
        case cell h p of
          None \<Rightarrow> True
        | Some n \<Rightarrow>
            (case cell h' p of
               None \<Rightarrow> False
             | Some n' \<Rightarrow> key n' = key n \<and> (next_ptr n = nullptr \<or> next_ptr n' = next_ptr n)))"

section \<open>Properties of the counters\<close>

text \<open>The loops are unfolded one step at a time, by \<open>subst\<close>.\<close>

declare push_back_loop.simps [simp del] count_loop.simps [simp del]
  store_loop.simps [simp del] count_loop_arr.simps [simp del]

lemma push_back_loop_eq: "push_back_loop i threads v = v @ replicate (nat (threads - i)) 0"
proof (induction i threads v rule: push_back_loop.induct)
  case (1 i threads v)
  show ?case
  proof (cases "i < threads")
    case True
    then have "nat (threads - i) = Suc (nat (threads - (i + 1)))" by simp
    with True 1 show ?thesis
      by (subst push_back_loop.simps) (simp add: replicate_append_same)
  next
    case False
    then show ?thesis by (subst push_back_loop.simps) simp
  qed
qed

lemma ctor_state:
  "0 \<le> C \<Longrightarrow> ApproximateConcurrentCounter_ctor C =
     Inr \<lparr>thread_counters = replicate (nat C) 0, num_threads = C\<rparr>"
  by (simp add: ApproximateConcurrentCounter_ctor_def push_back_loop_eq)

lemma sint_in_range_add:
  "INT_MIN \<le> sint a + sint b \<Longrightarrow> sint a + sint b \<le> INT_MAX \<Longrightarrow>
   sint (a + b :: 32 word) = sint a + sint b"
  by (simp add: INT_MIN_def INT_MAX_def sint_word_ariths signed_take_bit_int_eq_self)

lemma sint_of_nat_small: "k < 2147483648 \<Longrightarrow> sint (of_nat k :: 32 word) = int k"
  by (simp add: signed_of_nat signed_take_bit_int_eq_self)

lemma count_loop_sum:
  "0 \<le> i \<Longrightarrow> i \<le> n \<Longrightarrow> n = int (length cs) \<Longrightarrow> 0 \<le> sint tot \<Longrightarrow>
   (\<forall>x \<in> set cs. 0 \<le> sint x) \<Longrightarrow>
   sint tot + sum_list (map sint (drop (nat i) cs)) \<le> INT_MAX \<Longrightarrow>
   \<exists>t. count_loop cs i n tot = Inr t \<and> sint t = sint tot + sum_list (map sint (drop (nat i) cs))"
proof (induction cs i n tot rule: count_loop.induct)
  case (1 cs i n tot)
  show ?case
  proof (cases "i < n")
    case False
    with 1 show ?thesis by (subst count_loop.simps) simp
  next
    case True
    with 1 have lt: "nat i < length cs" by simp
    have dr: "drop (nat i) cs = cs ! nat i # drop (nat (i + 1)) cs"
      using lt 1(2) by (simp add: Cons_nth_drop_Suc nat_add_distrib)
    have nn: "0 \<le> sint (cs ! nat i)" using lt 1(6) by simp
    have rest: "0 \<le> sum_list (map sint (drop (nat (i + 1)) cs))"
      using 1(6) by (intro sum_list_nonneg) (auto dest: in_set_dropD)
    have bound: "sint tot + sint (cs ! nat i) \<le> INT_MAX"
      using 1(7) rest by (simp add: dr)
    have lo: "INT_MIN \<le> sint tot + sint (cs ! nat i)"
      using nn 1(5) by (simp add: INT_MIN_def)
    have ai: "add_int tot (cs ! nat i) = Inr (tot + cs ! nat i)"
      using bound lo by (simp add: add_int_def)
    have st: "sint (tot + cs ! nat i) = sint tot + sint (cs ! nat i)"
      using bound lo by (rule sint_in_range_add[rotated])
    have "\<exists>t. count_loop cs (i + 1) n (tot + cs ! nat i) = Inr t \<and>
            sint t = sint (tot + cs ! nat i) + sum_list (map sint (drop (nat (i + 1)) cs))"
      using 1(1)[OF True _ ai] True 1(2,4,6,7) lt nn 1(5) st dr by simp
    moreover have "i < int (length cs)" using True 1(4) by simp
    ultimately show ?thesis
      using True 1(2) ai st dr by (subst count_loop.simps) (auto simp: add.assoc)
  qed
qed

lemma increment_in_range:
  "0 \<le> t \<Longrightarrow> t < int (length (thread_counters c)) \<Longrightarrow>
   increment t c = Inr (c\<lparr>thread_counters :=
       (thread_counters c)[nat t := thread_counters c ! nat t + 1]\<rparr>)"
  by (simp add: increment_def fetch_add_def)

lemma increments_slots:
  "(\<forall>t \<in> set ids. 0 \<le> t \<and> t < int (length (thread_counters c))) \<Longrightarrow>
   \<exists>c'. increments ids c = Inr c' \<and> num_threads c' = num_threads c \<and>
     thread_counters c' =
       map (\<lambda>i. thread_counters c ! i + of_nat (count_list ids (int i)))
         [0 ..< length (thread_counters c)]"
proof (induction ids arbitrary: c)
  case Nil
  then show ?case by (simp add: map_nth)
next
  case (Cons t ts)
  let ?c1 = "c\<lparr>thread_counters := (thread_counters c)[nat t := thread_counters c ! nat t + 1]\<rparr>"
  have t: "0 \<le> t" "t < int (length (thread_counters c))" using Cons.prems by simp_all
  have inc: "increment t c = Inr ?c1" using t by (rule increment_in_range)
  have "\<forall>x \<in> set ts. 0 \<le> x \<and> x < int (length (thread_counters ?c1))"
    using Cons.prems by simp
  from Cons.IH[OF this] obtain c' where
    c': "increments ts ?c1 = Inr c'" "num_threads c' = num_threads ?c1"
      "thread_counters c' = map (\<lambda>i. thread_counters ?c1 ! i + of_nat (count_list ts (int i)))
         [0 ..< length (thread_counters ?c1)]"
    by blast
  have "thread_counters c' =
      map (\<lambda>i. thread_counters c ! i + of_nat (count_list (t # ts) (int i)))
         [0 ..< length (thread_counters c)]"
    unfolding c'(3) using t by (auto simp: nth_list_update)
  then show ?case using inc c' by simp
qed

lemma count_list_le_length: "count_list xs x \<le> length xs"
  by (induction xs) auto

lemma sum_list_indicator:
  "(\<Sum>i\<leftarrow>[0..<n]. if i = k then 1 else (0::int)) = (if k < n then 1 else 0)"
  by (induction n) auto

lemma issued_eq_length:
  "\<forall>t \<in> set ids. 0 \<le> t \<and> t < C \<Longrightarrow> issued C ids = int (length ids)"
proof (induction ids)
  case Nil
  then show ?case by (simp add: issued_def)
next
  case (Cons t ts)
  then have t: "0 \<le> t" "t < C" and IH: "issued C ts = int (length ts)" by simp_all
  have "(\<Sum>i\<leftarrow>[0..<nat C]. int (count_list (t # ts) (int i))) =
        (\<Sum>i\<leftarrow>[0..<nat C]. (if i = nat t then 1 else 0) + int (count_list ts (int i)))"
    using t by (intro arg_cong[where f=sum_list] map_cong) auto
  also have "\<dots> = (\<Sum>i\<leftarrow>[0..<nat C]. if i = nat t then 1 else 0) + issued C ts"
    by (simp add: sum_list_addf issued_def)
  also have "(\<Sum>i\<leftarrow>[0..<nat C]. if i = nat t then 1 else (0::int)) = 1"
    using t by (simp add: sum_list_indicator)
  finally show ?case using IH by (simp add: issued_def)
qed

text \<open>
  C1 (as amended).  For every capacity \<open>C \<ge> 1\<close> and every completed run of
  \<open>increment\<close> calls with thread ids in \<open>[0, C)\<close>, \<open>get_approximate_count\<close> returns
  exactly the number of increments issued, the sum of the \<open>k_i\<close>, provided that this
  sum is at most \<open>INT_MAX\<close>.
\<close>

theorem total_exact_below_INT_MAX:
  assumes C: "1 \<le> C"
    and ids: "\<forall>t \<in> set ids. 0 \<le> t \<and> t < C"
    and small: "issued C ids \<le> INT_MAX"
  shows "total_after C ids = Inr (issued C ids)"
proof -
  let ?c = "\<lparr>thread_counters = replicate (nat C) 0, num_threads = C\<rparr>"
  let ?cs = "map (\<lambda>i. of_nat (count_list ids (int i)) :: 32 word) [0 ..< nat C]"
  have ctor: "ApproximateConcurrentCounter_ctor C = Inr ?c"
    using C by (simp add: ctor_state)
  have "\<forall>t \<in> set ids. 0 \<le> t \<and> t < int (length (thread_counters ?c))"
    using ids C by simp
  from increments_slots[OF this] obtain c' where
    run: "increments ids ?c = Inr c'" and n: "num_threads c' = C"
    and cs: "thread_counters c' = ?cs"
    by auto
  have len: "int (length ids) \<le> INT_MAX"
    using small issued_eq_length[OF ids] by simp
  have val: "sint (of_nat (count_list ids x) :: 32 word) = int (count_list ids x)" for x
    using len count_list_le_length[of ids x]
    by (intro sint_of_nat_small) (simp add: INT_MAX_def)
  have sum: "sum_list (map sint ?cs) = issued C ids"
    by (simp add: issued_def comp_def val)
  have "\<exists>t. count_loop ?cs 0 C 0 = Inr t \<and>
          sint t = sint (0 :: 32 word) + sum_list (map sint (drop (nat 0) ?cs))"
    using C small sum by (intro count_loop_sum) (auto simp: val)
  then obtain t where "count_loop ?cs 0 C 0 = Inr t" "sint t = issued C ids"
    using sum by auto
  then show ?thesis
    using ctor run n cs by (simp add: total_after_def get_approximate_count_def)
qed

theorem total_exact_below_INT_MAX_witness:
  "1 \<le> (4::int) \<and> issued 4 [0, 1, 2, 3, 0] = 5 \<and> issued 4 [0, 1, 2, 3, 0] \<le> INT_MAX \<and>
   total_after 4 [0, 1, 2, 3, 0] = Inr 5"
proof -
  have i: "issued 4 [0, 1, 2, 3, 0] = 5"
    by (simp add: issued_def upt_rec)
  have s: "issued 4 [0, 1, 2, 3, 0] \<le> INT_MAX"
    by (simp add: i INT_MAX_def)
  have r: "\<forall>t \<in> set [0, 1, 2, 3, 0 :: int]. 0 \<le> t \<and> t < 4" by simp
  show ?thesis
    using total_exact_below_INT_MAX [OF _ r s] i s by simp
qed

lemma count_list_replicate_same: "count_list (replicate n x) x = n"
  by (induction n) auto

text \<open>
  C1 as stated fails without that bound: one worker that issues \<open>2^31\<close> increments on
  a bank of capacity 1 leaves the slot at \<open>INT_MIN\<close>, and the total returned is
  \<open>-2147483648\<close>, not \<open>2147483648\<close>.
\<close>

theorem total_wraps_counterexample:
  "issued 1 (replicate 2147483648 0) = 2147483648 \<and>
   total_after 1 (replicate 2147483648 0) = Inr (- 2147483648)"
proof -
  let ?ids = "replicate 2147483648 (0::int)"
  let ?c = "\<lparr>thread_counters = replicate (nat 1) 0, num_threads = 1\<rparr>"
  have i: "issued 1 ?ids = 2147483648"
    by (simp add: issued_def count_list_replicate_same)
  have ctor: "ApproximateConcurrentCounter_ctor 1 = Inr ?c"
    by (simp add: ctor_state)
  have "\<forall>t \<in> set ?ids. 0 \<le> t \<and> t < int (length (thread_counters ?c))" by simp
  from increments_slots[OF this] obtain c' where
    run: "increments ?ids ?c = Inr c'" and n: "num_threads c' = 1"
    and cs: "thread_counters c' = [2147483648]"
    by (auto simp: count_list_replicate_same)
  have "count_loop [2147483648] 0 1 0 = Inr 2147483648"
    by (simp add: count_loop.simps add_int_def INT_MIN_def INT_MAX_def)
  then have "total_after 1 ?ids = Inr (- 2147483648)"
    using ctor run n cs by (simp add: total_after_def get_approximate_count_def)
  with i show ?thesis by simp
qed

lemma store_loop_eq:
  "0 \<le> i \<Longrightarrow> threads \<le> MAX_THREADS \<Longrightarrow>
   store_loop i threads a = Inr (\<lambda>j. if i \<le> int j \<and> int j < threads then 0 else a j)"
proof (induction i threads a rule: store_loop.induct)
  case (1 i threads a)
  show ?case
  proof (cases "i < threads")
    case True
    have "store_loop (i + 1) threads (a(nat i := 0)) =
        Inr (\<lambda>j. if i + 1 \<le> int j \<and> int j < threads then 0 else (a(nat i := 0)) j)"
      using 1(1)[OF True] True 1(2,3) by linarith
    also have "(\<lambda>j. if i + 1 \<le> int j \<and> int j < threads then 0 else (a(nat i := 0)) j) =
        (\<lambda>j. if i \<le> int j \<and> int j < threads then 0 else a j)"
      using True 1(2) by (auto simp: fun_eq_iff)
    finally have step: "store_loop (i + 1) threads (a(nat i := 0)) =
        Inr (\<lambda>j. if i \<le> int j \<and> int j < threads then 0 else a j)" .
    have "store_loop i threads a = store_loop (i + 1) threads (a(nat i := 0))"
      using True 1(2,3) by (subst store_loop.simps) simp
    then show ?thesis by (simp only: step)
  next
    case False
    then have "(\<lambda>j. if i \<le> int j \<and> int j < threads then 0 else a j) = a"
      by (auto simp: fun_eq_iff)
    with False show ?thesis by (subst store_loop.simps) simp
  qed
qed

lemma ctor_arr_state:
  "threads \<le> MAX_THREADS \<Longrightarrow>
   ApproximateConcurrentCounterArray_ctor mem threads =
     Inr \<lparr>thread_counters_arr = (\<lambda>j. if int j < threads then 0 else mem j),
          num_threads_arr = threads\<rparr>"
  by (simp add: ApproximateConcurrentCounterArray_ctor_def store_loop_eq)

text \<open>
  C4.  Construction of the array-backed variant throws \<open>std::invalid_argument\<close> when
  the capacity is above 16 and succeeds for every capacity up to 16; construction of the
  vector-backed variant never throws \<open>std::invalid_argument\<close>, whatever the capacity.
\<close>

theorem construction_failure:
  "(threads > 16 \<longrightarrow>
      ApproximateConcurrentCounterArray_ctor mem threads = Inl (Thrown invalid_argument)) \<and>
   (threads \<le> 16 \<longrightarrow>
      (\<exists>c. ApproximateConcurrentCounterArray_ctor mem threads = Inr c)) \<and>
   ApproximateConcurrentCounter_ctor n \<noteq> Inl (Thrown invalid_argument)"
proof (intro conjI impI)
  assume "threads > 16"
  then show "ApproximateConcurrentCounterArray_ctor mem threads = Inl (Thrown invalid_argument)"
    by (simp add: ApproximateConcurrentCounterArray_ctor_def MAX_THREADS_def)
next
  assume "threads \<le> 16"
  then show "\<exists>c. ApproximateConcurrentCounterArray_ctor mem threads = Inr c"
    by (simp add: ctor_arr_state MAX_THREADS_def)
next
  show "ApproximateConcurrentCounter_ctor n \<noteq> Inl (Thrown invalid_argument)"
    by (simp add: ApproximateConcurrentCounter_ctor_def)
qed

theorem construction_failure_witness:
  "ApproximateConcurrentCounterArray_ctor (\<lambda>_. 7) 17 = Inl (Thrown invalid_argument) \<and>
   (\<exists>c. ApproximateConcurrentCounterArray_ctor (\<lambda>_. 7) 16 = Inr c) \<and>
   ApproximateConcurrentCounter_ctor 17 \<noteq> Inl (Thrown invalid_argument)"
  using construction_failure [of 17 "\<lambda>_. 7" 17] construction_failure [of 16 "\<lambda>_. 7" 17]
  by simp

lemma count_loop_arr_eq:
  "n = int (length cs) \<Longrightarrow> n \<le> MAX_THREADS \<Longrightarrow> 0 \<le> i \<Longrightarrow>
   (\<forall>j < length cs. cs ! j = a j) \<Longrightarrow>
   count_loop cs i n tot = count_loop_arr a i n tot"
proof (induction cs i n tot rule: count_loop.induct)
  case (1 cs i n tot)
  show ?case
  proof (cases "i < n")
    case False
    then show ?thesis
      by (subst count_loop.simps, subst count_loop_arr.simps) simp
  next
    case True
    then have b: "i < int (length cs)" "i < MAX_THREADS" "nat i < length cs"
      using 1(2,3,4) by simp_all
    then have same: "cs ! nat i = a (nat i)" using 1(5) by simp
    show ?thesis
    proof (cases "add_int tot (a (nat i))")
      case (Inl e)
      then show ?thesis
        using True b 1(4) same by (subst count_loop.simps, subst count_loop_arr.simps) simp
    next
      case (Inr t)
      then have "count_loop cs (i + 1) n t = count_loop_arr a (i + 1) n t"
        using 1(1)[of t] True b 1(2,3,4,5) same by simp
      then show ?thesis
        using True b 1(4) same Inr
        by (subst count_loop.simps, subst count_loop_arr.simps) simp
    qed
  qed
qed

lemma run_counter_same:
  "C \<le> MAX_THREADS \<Longrightarrow> same_counters C v a \<Longrightarrow> \<forall>x \<in> set ops. op_id_ok C x \<Longrightarrow>
   run_counter ops v = run_counter_arr ops a"
proof (induction ops arbitrary: v a)
  case Nil
  then show ?case by simp
next
  case (Cons x ops)
  have s: "num_threads v = C" "num_threads_arr a = C" "int (length (thread_counters v)) = C"
    "\<And>j. j < length (thread_counters v) \<Longrightarrow> thread_counters v ! j = thread_counters_arr a j"
    using Cons.prems(2) by (simp_all add: same_counters_def)
  have rest: "\<forall>y \<in> set ops. op_id_ok C y" using Cons.prems(3) by simp
  show ?case
  proof (cases x)
    case (Increment t)
    then have t: "0 \<le> t" "t < C" using Cons.prems(3) by simp_all
    let ?v = "v\<lparr>thread_counters := (thread_counters v)[nat t := thread_counters v ! nat t + 1]\<rparr>"
    let ?a = "a\<lparr>thread_counters_arr :=
        (thread_counters_arr a)(nat t := thread_counters_arr a (nat t) + 1)\<rparr>"
    have iv: "increment t v = Inr ?v" using t s(3) by (simp add: increment_in_range)
    have ia: "increment_arr t a = Inr ?a"
      using t Cons.prems(1) by (simp add: increment_arr_def fetch_add_def)
    have "same_counters C ?v ?a"
      using s t by (auto simp: same_counters_def nth_list_update)
    from Cons.IH[OF Cons.prems(1) this rest] show ?thesis
      using Increment iv ia by simp
  next
    case (ReadSlot t)
    then have t: "0 \<le> t" "t < C" using Cons.prems(3) by simp_all
    then have "get_thread_count t v = Inr (thread_counters_arr a (nat t))"
      "get_thread_count_arr t a = Inr (thread_counters_arr a (nat t))"
      using s Cons.prems(1) by (simp_all add: get_thread_count_def get_thread_count_arr_def)
    with Cons.IH[OF Cons.prems(1,2) rest] show ?thesis
      using ReadSlot by (simp split: sum.splits)
  next
    case Total
    have "0 \<le> C" using s(3) by linarith
    have "get_approximate_count v = get_approximate_count_arr a"
      unfolding get_approximate_count_def get_approximate_count_arr_def s(1,2)
      using s(3,4) Cons.prems(1) by (intro count_loop_arr_eq) simp_all
    with Cons.IH[OF Cons.prems(1,2) rest] show ?thesis
      using Total by (simp split: sum.splits)
  qed
qed

text \<open>
  C2.  For every capacity \<open>1 \<le> C \<le> 16\<close> and every sequence of \<open>increment\<close>,
  \<open>get_thread_count\<close> and \<open>get_approximate_count\<close> calls with thread ids in \<open>[0, C)\<close>,
  both variants are constructed and return the same result for every read of the
  sequence, whatever the array's storage held before construction.
\<close>

theorem variants_agree:
  assumes "1 \<le> C" and "C \<le> 16" and "\<forall>x \<in> set ops. op_id_ok C x"
  shows "\<exists>v a. ApproximateConcurrentCounter_ctor C = Inr v \<and>
           ApproximateConcurrentCounterArray_ctor mem C = Inr a \<and>
           run_counter ops v = run_counter_arr ops a"
proof -
  let ?v = "\<lparr>thread_counters = replicate (nat C) 0, num_threads = C\<rparr>"
  let ?a = "\<lparr>thread_counters_arr = (\<lambda>j. if int j < C then 0 else mem j), num_threads_arr = C\<rparr>"
  have le: "C \<le> MAX_THREADS" using assms(2) by (simp add: MAX_THREADS_def)
  have "same_counters C ?v ?a"
    using assms(1) by (auto simp: same_counters_def)
  from run_counter_same[OF le this assms(3)] show ?thesis
    using assms(1) le by (simp add: ctor_state ctor_arr_state)
qed

theorem variants_agree_witness:
  "\<exists>v a. ApproximateConcurrentCounter_ctor 2 = Inr v \<and>
     ApproximateConcurrentCounterArray_ctor (\<lambda>_. 7) 2 = Inr a \<and>
     run_counter [Increment 1, ReadSlot 1, Increment 0, Increment 1, Total, ReadSlot 0] v =
       [Inr 1, Inr 3, Inr 1] \<and>
     run_counter_arr [Increment 1, ReadSlot 1, Increment 0, Increment 1, Total, ReadSlot 0] a =
       [Inr 1, Inr 3, Inr 1]"
proof -
  let ?ops = "[Increment 1, ReadSlot 1, Increment 0, Increment 1, Total, ReadSlot 0]"
  have ok: "\<forall>x \<in> set ?ops. op_id_ok 2 x" by simp
  from variants_agree [of 2 ?ops "\<lambda>_. 7", OF _ _ ok] obtain v a where
    va: "ApproximateConcurrentCounter_ctor 2 = Inr v"
      "ApproximateConcurrentCounterArray_ctor (\<lambda>_. 7) 2 = Inr a"
      "run_counter ?ops v = run_counter_arr ?ops a"
    by auto
  have "v = \<lparr>thread_counters = [0, 0], num_threads = 2\<rparr>"
    using va(1) by (simp add: ctor_state numeral_2_eq_2)
  then have "run_counter ?ops v = [Inr 1, Inr 3, Inr 1]"
    by (simp add: increment_def fetch_add_def get_thread_count_def get_approximate_count_def
        count_loop.simps add_int_def INT_MIN_def INT_MAX_def)
  with va show ?thesis by auto
qed

lemma sint_plus_one:
  "sint (v + 1 :: 32 word) = (if sint v = INT_MAX then INT_MIN else sint v + 1)"
proof (cases "sint v = INT_MAX")
  case True
  then show ?thesis by (simp add: sint_word_ariths INT_MAX_def INT_MIN_def)
next
  case False
  have "sint v < 2 ^ (LENGTH(32) - 1)" by (rule sint_lt)
  moreover have "- (2 ^ (LENGTH(32) - 1)) \<le> sint v" by (rule sint_ge)
  ultimately have "INT_MIN \<le> sint v + sint (1 :: 32 word)" "sint v + sint (1 :: 32 word) \<le> INT_MAX"
    using False by (simp_all add: INT_MAX_def INT_MIN_def)
  from sint_in_range_add[OF this] False show ?thesis by simp
qed

text \<open>
  C6 (as amended).  For a thread id in \<open>[0, capacity)\<close>, \<open>increment\<close> adds one to that
  slot in 32-bit two's complement arithmetic, so the slot's value goes up by exactly one
  unless it is \<open>INT_MAX\<close>, where it becomes \<open>INT_MIN\<close>; every other slot of the bank
  keeps its value.  This holds for both variants.
\<close>

theorem increment_frame:
  assumes "0 \<le> t"
  shows "(t < num_threads c \<and> int (length (thread_counters c)) = num_threads c \<longrightarrow>
      (\<exists>c' v. increment t c = Inr c' \<and> num_threads c' = num_threads c \<and>
         get_thread_count t c = Inr v \<and> get_thread_count t c' = Inr (v + 1) \<and>
         sint (v + 1) = (if sint v = INT_MAX then INT_MIN else sint v + 1) \<and>
         (\<forall>j. 0 \<le> j \<and> j < num_threads c \<and> j \<noteq> t \<longrightarrow>
            get_thread_count j c' = get_thread_count j c))) \<and>
    (t < num_threads_arr a \<and> num_threads_arr a \<le> MAX_THREADS \<longrightarrow>
      (\<exists>a' v. increment_arr t a = Inr a' \<and> num_threads_arr a' = num_threads_arr a \<and>
         get_thread_count_arr t a = Inr v \<and> get_thread_count_arr t a' = Inr (v + 1) \<and>
         sint (v + 1) = (if sint v = INT_MAX then INT_MIN else sint v + 1) \<and>
         (\<forall>j. 0 \<le> j \<and> j < num_threads_arr a \<and> j \<noteq> t \<longrightarrow>
            get_thread_count_arr j a' = get_thread_count_arr j a)))"
proof (intro conjI impI)
  assume h: "t < num_threads c \<and> int (length (thread_counters c)) = num_threads c"
  let ?c' = "c\<lparr>thread_counters := (thread_counters c)[nat t := thread_counters c ! nat t + 1]\<rparr>"
  have lt: "nat t < length (thread_counters c)" using assms h by linarith
  have "increment t c = Inr ?c'"
    using assms h by (simp add: increment_in_range)
  moreover have "get_thread_count t c = Inr (thread_counters c ! nat t)"
    "get_thread_count t ?c' = Inr (thread_counters c ! nat t + 1)"
    using assms h lt by (simp_all add: get_thread_count_def)
  moreover have "\<forall>j. 0 \<le> j \<and> j < num_threads c \<and> j \<noteq> t \<longrightarrow>
      get_thread_count j ?c' = get_thread_count j c"
    using assms h by (auto simp: get_thread_count_def nth_list_update)
  ultimately show "\<exists>c' v. increment t c = Inr c' \<and> num_threads c' = num_threads c \<and>
         get_thread_count t c = Inr v \<and> get_thread_count t c' = Inr (v + 1) \<and>
         sint (v + 1) = (if sint v = INT_MAX then INT_MIN else sint v + 1) \<and>
         (\<forall>j. 0 \<le> j \<and> j < num_threads c \<and> j \<noteq> t \<longrightarrow>
            get_thread_count j c' = get_thread_count j c)"
    using sint_plus_one by (intro exI[of _ ?c'] exI[of _ "thread_counters c ! nat t"]) simp
next
  assume h: "t < num_threads_arr a \<and> num_threads_arr a \<le> MAX_THREADS"
  let ?a' = "a\<lparr>thread_counters_arr :=
      (thread_counters_arr a)(nat t := thread_counters_arr a (nat t) + 1)\<rparr>"
  have "increment_arr t a = Inr ?a'"
    using assms h by (simp add: increment_arr_def fetch_add_def)
  moreover have "get_thread_count_arr t a = Inr (thread_counters_arr a (nat t))"
    "get_thread_count_arr t ?a' = Inr (thread_counters_arr a (nat t) + 1)"
    using assms h by (simp_all add: get_thread_count_arr_def)
  moreover have "\<forall>j. 0 \<le> j \<and> j < num_threads_arr a \<and> j \<noteq> t \<longrightarrow>
      get_thread_count_arr j ?a' = get_thread_count_arr j a"
    using assms h by (auto simp: get_thread_count_arr_def)
  ultimately show "\<exists>a' v. increment_arr t a = Inr a' \<and> num_threads_arr a' = num_threads_arr a \<and>
         get_thread_count_arr t a = Inr v \<and> get_thread_count_arr t a' = Inr (v + 1) \<and>
         sint (v + 1) = (if sint v = INT_MAX then INT_MIN else sint v + 1) \<and>
         (\<forall>j. 0 \<le> j \<and> j < num_threads_arr a \<and> j \<noteq> t \<longrightarrow>
            get_thread_count_arr j a' = get_thread_count_arr j a)"
    using sint_plus_one by (intro exI[of _ ?a'] exI[of _ "thread_counters_arr a (nat t)"]) simp
qed

theorem increment_frame_witness:
  "(\<exists>c'. increment 1 \<lparr>thread_counters = [5, 9], num_threads = 2\<rparr> = Inr c' \<and>
      get_thread_count 1 c' = Inr 10 \<and> get_thread_count 0 c' = Inr 5) \<and>
   (\<exists>a'. increment_arr 1 \<lparr>thread_counters_arr = (\<lambda>_. 3), num_threads_arr = 2\<rparr> = Inr a' \<and>
      get_thread_count_arr 1 a' = Inr 4 \<and> get_thread_count_arr 0 a' = Inr 3)"
proof -
  let ?c = "\<lparr>thread_counters = [5, 9], num_threads = 2\<rparr>"
  let ?a = "\<lparr>thread_counters_arr = (\<lambda>_. 3), num_threads_arr = 2\<rparr>"
  have t: "0 \<le> (1::int)" by simp
  have hc: "1 < num_threads ?c \<and> int (length (thread_counters ?c)) = num_threads ?c"
    by simp
  have ha: "1 < num_threads_arr ?a \<and> num_threads_arr ?a \<le> MAX_THREADS"
    by (simp add: MAX_THREADS_def)
  from increment_frame [OF t, of ?c ?a] hc obtain c' v where
    c: "increment 1 ?c = Inr c'" "get_thread_count 1 ?c = Inr v"
      "get_thread_count 1 c' = Inr (v + 1)"
      "\<forall>j. 0 \<le> j \<and> j < num_threads ?c \<and> j \<noteq> 1 \<longrightarrow>
         get_thread_count j c' = get_thread_count j ?c"
    by blast
  from increment_frame [OF t, of ?c ?a] ha obtain a' u where
    a: "increment_arr 1 ?a = Inr a'" "get_thread_count_arr 1 ?a = Inr u"
      "get_thread_count_arr 1 a' = Inr (u + 1)"
      "\<forall>j. 0 \<le> j \<and> j < num_threads_arr ?a \<and> j \<noteq> 1 \<longrightarrow>
         get_thread_count_arr j a' = get_thread_count_arr j ?a"
    by blast
  have "v = 9" using c(2) by (simp add: get_thread_count_def)
  moreover have "get_thread_count 0 c' = get_thread_count 0 ?c" using c(4) by simp
  moreover have "u = 3" using a(2) by (simp add: get_thread_count_arr_def MAX_THREADS_def)
  moreover have "get_thread_count_arr 0 a' = get_thread_count_arr 0 ?a" using a(4) by simp
  ultimately show ?thesis
    using c(1,3) a(1,3)
    by (simp add: get_thread_count_def get_thread_count_arr_def MAX_THREADS_def)
qed

text \<open>
  C6 as stated fails at a slot that holds \<open>INT_MAX\<close>: after 2147483647 increments the
  slot reads 2147483647, and after one more it reads \<open>-2147483648\<close>.
\<close>

theorem increment_wraps_counterexample:
  "slot_after 1 (replicate 2147483647 0) 0 = Inr 2147483647 \<and>
   slot_after 1 (replicate 2147483647 0 @ [0]) 0 = Inr (- 2147483648)"
proof -
  let ?c = "\<lparr>thread_counters = replicate (nat 1) 0, num_threads = 1\<rparr>"
  have ctor: "ApproximateConcurrentCounter_ctor 1 = Inr ?c"
    by (simp add: ctor_state)
  have run: "\<exists>c'. increments (replicate n 0) ?c = Inr c' \<and> thread_counters c' = [of_nat n]" for n
  proof -
    have "\<forall>t \<in> set (replicate n (0::int)). 0 \<le> t \<and> t < int (length (thread_counters ?c))"
      by simp
    from increments_slots[OF this] show ?thesis
      by (auto simp: count_list_replicate_same)
  qed
  have after: "slot_after 1 (replicate n 0) 0 = Inr (sint (of_nat n :: 32 word))" for n
    using run[of n] ctor by (auto simp: slot_after_def get_thread_count_def)
  have "replicate 2147483647 0 @ [0::int] = replicate 2147483648 0"
    by (simp add: replicate_append_same flip: replicate_Suc)
  then show ?thesis
    using after[of 2147483647] after[of 2147483648] by simp
qed

section \<open>Properties of the list\<close>

subsection \<open>Cells and paths\<close>

lemma cell_Some_bounds: "cell h p = Some n \<Longrightarrow> p \<noteq> nullptr \<and> p \<le> length h"
  by (auto simp: cell_def split: if_splits)

lemma cell_append_old: "p \<le> length h \<Longrightarrow> cell (h @ xs) p = cell h p"
  by (cases p) (auto simp: cell_def nth_append nullptr_def)

lemma cell_append_new: "cell (h @ [x]) (Suc (length h)) = x"
  by (simp add: cell_def nullptr_def)

lemma Suc_not_nullptr: "Suc n \<noteq> nullptr"
  by (simp add: nullptr_def)

lemma cell_update_same:
  "p \<noteq> nullptr \<Longrightarrow> p \<le> length h \<Longrightarrow> cell (h[p - Suc 0 := v]) p = v"
  by (cases p) (auto simp: cell_def nullptr_def)

lemma cell_update_other:
  "p \<noteq> nullptr \<Longrightarrow> q \<noteq> p \<Longrightarrow> cell (h[p - Suc 0 := v]) q = cell h q"
  by (cases p; cases q) (auto simp: cell_def nullptr_def)

lemma path_bounds: "path h p as q \<Longrightarrow> a \<in> set as \<Longrightarrow> a \<noteq> nullptr \<and> a \<le> length h"
  by (induction as arbitrary: p) (auto split: option.splits dest: cell_Some_bounds)

lemma path_append_heap: "path h p as q \<Longrightarrow> path (h @ xs) p as q"
proof (induction as arbitrary: p)
  case Nil
  then show ?case by simp
next
  case (Cons a as)
  then obtain n where n: "p = a" "cell h a = Some n" "\<not> n_lock n" "path h (next_ptr n) as q"
    by (auto split: option.splits)
  then have "cell (h @ xs) a = Some n"
    using cell_Some_bounds[OF n(2)] by (simp add: cell_append_old)
  with n Cons.IH[OF n(4)] show ?case by simp
qed

lemma path_update_other:
  "u \<noteq> nullptr \<Longrightarrow> u \<notin> set as \<Longrightarrow> path (h[u - Suc 0 := v]) p as q = path h p as q"
proof (induction as arbitrary: p)
  case Nil
  then show ?case by simp
next
  case (Cons a as)
  then have "cell (h[u - Suc 0 := v]) a = cell h a"
    by (intro cell_update_other) auto
  with Cons show ?case by (simp split: option.splits)
qed

lemma path_app:
  "path h p (as @ bs) r \<longleftrightarrow> (\<exists>q. path h p as q \<and> path h q bs r)"
  by (induction as arbitrary: p) (auto split: option.splits)

lemma path_last:
  "path h p (as @ [t]) nullptr \<longleftrightarrow>
     path h p as t \<and> (\<exists>n. cell h t = Some n \<and> \<not> n_lock n \<and> next_ptr n = nullptr)"
  by (auto simp: path_app split: option.splits)

subsection \<open>One call of insert, traverse and the destructor\<close>

lemma insert_throws:
  "\<not> length (heap w) < heap_limit w \<Longrightarrow> List_insert k w = Some (Inl (Thrown bad_alloc), w)"
  by (simp add: List_insert_def new_node_t_def)

lemma insert_first:
  "tail w = nullptr \<Longrightarrow> length (heap w) < heap_limit w \<Longrightarrow>
   List_insert k w =
     Some (Inr 0, w\<lparr>head := Suc (length (heap w)), tail := Suc (length (heap w)),
                    heap := heap w @ [Some \<lparr>key = k, next_ptr = nullptr, n_lock = False\<rparr>]\<rparr>)"
  by (simp add: List_insert_def new_node_t_def cell_append_new Suc_not_nullptr)

lemma insert_later:
  assumes "cell (heap w) (tail w) = Some tn" and "\<not> n_lock tn"
    and "length (heap w) < heap_limit w"
  shows "List_insert k w =
     Some (Inr 0, w\<lparr>tail := Suc (length (heap w)),
                    heap := (heap w @ [Some \<lparr>key = k, next_ptr = nullptr, n_lock = False\<rparr>])
                              [tail w - 1 := Some (tn\<lparr>next_ptr := Suc (length (heap w))\<rparr>)],
                    events := events w @ [Lock (tail w), Unlock (tail w)]\<rparr>)"
proof -
  from cell_Some_bounds[OF assms(1)] have t: "tail w \<noteq> nullptr" "tail w \<le> length (heap w)"
    by simp_all
  let ?N = "Some \<lparr>key = k, next_ptr = nullptr, n_lock = False\<rparr>"
  have c1: "cell (heap w @ [?N]) (tail w) = Some tn"
    using t assms(1) by (simp add: cell_append_old)
  have len: "tail w \<le> length (heap w @ [?N])" using t by simp
  have unl: "tn\<lparr>next_ptr := x, n_lock := False\<rparr> = tn\<lparr>next_ptr := x\<rparr>" for x
    using assms(2) by (cases tn) simp
  show ?thesis
    using assms t c1
    by (simp add: List_insert_def new_node_t_def cell_append_new lock_def unlock_def
        cell_update_same Let_def Suc_not_nullptr unl)
qed

lemma list_update_cell_id:
  "cell h a = Some n \<Longrightarrow> h[a - Suc 0 := Some n] = h"
  by (cases a) (auto simp: cell_def nullptr_def list_update_same_conv split: if_splits)

lemma traverse_loop_path:
  "path (heap w) p as nullptr \<Longrightarrow>
   traverse_loop p w = Some (Inr (), w\<lparr>events := events w @ visit_events (heap w) as\<rparr>)"
proof (induction as arbitrary: p w)
  case Nil
  then show ?case by (subst traverse_loop.simps) simp
next
  case (Cons a as)
  then obtain n where n: "p = a" "cell (heap w) a = Some n" "\<not> n_lock n"
    "path (heap w) (next_ptr n) as nullptr"
    by (auto split: option.splits)
  from cell_Some_bounds[OF n(2)] have a: "a \<noteq> nullptr" "a \<le> length (heap w)" by simp_all
  let ?w3 = "w\<lparr>events := events w @ [Lock a, Print (key n), Unlock a]\<rparr>"
  have relock: "n\<lparr>n_lock := True, n_lock := False\<rparr> = n" "n\<lparr>n_lock := False\<rparr> = n"
    using n(3) by (cases n, simp)+
  have "path (heap ?w3) (next_ptr n) as nullptr" using n(4) by simp
  from Cons.IH[OF this]
  have rest: "traverse_loop (next_ptr n) ?w3 =
      Some (Inr (), w\<lparr>events := events w @ Lock a # Print (key n) # Unlock a #
                                  visit_events (heap w) as\<rparr>)"
    by simp
  have "traverse_loop a w = traverse_loop (next_ptr n) ?w3"
    using n(2,3) a
    by (subst traverse_loop.simps)
       (simp add: lock_def unlock_def cell_update_same relock list_update_cell_id)
  with rest n(1,2) show ?case by (simp add: key_at_def)
qed

lemma freed_length: "length (freed h as) = length h"
  by (induction as arbitrary: h) auto

lemma dtor_loop_path:
  "path (heap w) (head w) as nullptr \<Longrightarrow> distinct as \<Longrightarrow>
   dtor_loop w = Some (Inr (w\<lparr>head := nullptr, heap := freed (heap w) as\<rparr>))"
proof (induction as arbitrary: w)
  case Nil
  then show ?case by (subst dtor_loop.simps) simp
next
  case (Cons a as)
  then obtain n where n: "head w = a" "cell (heap w) a = Some n" "\<not> n_lock n"
    "path (heap w) (next_ptr n) as nullptr"
    by (auto split: option.splits)
  from cell_Some_bounds[OF n(2)] have a: "a \<noteq> nullptr" "a \<le> length (heap w)" by simp_all
  let ?w1 = "w\<lparr>head := next_ptr n, heap := (heap w)[a - 1 := None]\<rparr>"
  have "path (heap ?w1) (head ?w1) as nullptr"
    using n(4) a Cons.prems(2) by (simp add: path_update_other)
  from Cons.IH[OF this] Cons.prems(2)
  have "dtor_loop ?w1 = Some (Inr (w\<lparr>head := nullptr, heap := freed (heap w) (a # as)\<rparr>))"
    by simp
  moreover have "dtor_loop w = dtor_loop ?w1"
    using n a by (subst dtor_loop.simps) simp
  ultimately show ?case by simp
qed

lemma links_kept_iff:
  "links_kept h h' \<longleftrightarrow>
     (\<forall>p n. cell h p = Some n \<longrightarrow>
        (\<exists>n'. cell h' p = Some n' \<and> key n' = key n \<and>
           (next_ptr n \<noteq> nullptr \<longrightarrow> next_ptr n' = next_ptr n)))"
proof
  assume l: "links_kept h h'"
  show "\<forall>p n. cell h p = Some n \<longrightarrow>
        (\<exists>n'. cell h' p = Some n' \<and> key n' = key n \<and>
           (next_ptr n \<noteq> nullptr \<longrightarrow> next_ptr n' = next_ptr n))"
  proof (intro allI impI)
    fix p n assume c: "cell h p = Some n"
    from cell_Some_bounds[OF c] have "p \<in> {1 .. length h}" by (simp add: nullptr_def)
    with l c show "\<exists>n'. cell h' p = Some n' \<and> key n' = key n \<and>
           (next_ptr n \<noteq> nullptr \<longrightarrow> next_ptr n' = next_ptr n)"
      unfolding links_kept_def by (fastforce split: option.splits)
  qed
next
  assume "\<forall>p n. cell h p = Some n \<longrightarrow>
        (\<exists>n'. cell h' p = Some n' \<and> key n' = key n \<and>
           (next_ptr n \<noteq> nullptr \<longrightarrow> next_ptr n' = next_ptr n))"
  then show "links_kept h h'"
    unfolding links_kept_def by (fastforce split: option.splits)
qed

lemma links_kept_refl: "links_kept h h"
  by (simp add: links_kept_iff)

lemma links_kept_trans: "links_kept h1 h2 \<Longrightarrow> links_kept h2 h3 \<Longrightarrow> links_kept h1 h3"
  unfolding links_kept_iff
proof (intro allI impI)
  fix p n
  assume a: "\<forall>p n. cell h1 p = Some n \<longrightarrow>
        (\<exists>n'. cell h2 p = Some n' \<and> key n' = key n \<and>
           (next_ptr n \<noteq> nullptr \<longrightarrow> next_ptr n' = next_ptr n))"
    and b: "\<forall>p n. cell h2 p = Some n \<longrightarrow>
        (\<exists>n'. cell h3 p = Some n' \<and> key n' = key n \<and>
           (next_ptr n \<noteq> nullptr \<longrightarrow> next_ptr n' = next_ptr n))"
    and c: "cell h1 p = Some n"
  from a c obtain n2 where n2: "cell h2 p = Some n2" "key n2 = key n"
    "next_ptr n \<noteq> nullptr \<longrightarrow> next_ptr n2 = next_ptr n" by blast
  from b n2(1) obtain n3 where n3: "cell h3 p = Some n3" "key n3 = key n2"
    "next_ptr n2 \<noteq> nullptr \<longrightarrow> next_ptr n3 = next_ptr n2" by blast
  show "\<exists>n'. cell h3 p = Some n' \<and> key n' = key n \<and>
           (next_ptr n \<noteq> nullptr \<longrightarrow> next_ptr n' = next_ptr n)"
    using n2 n3 by auto
qed

lemma list_at_ctor: "list_at (List_ctor L) []"
  by (simp add: list_at_def List_ctor_def)

lemma list_at_size: "list_at (w\<lparr>size_fld := v\<rparr>) ps = list_at w ps"
  by (simp add: list_at_def)

lemma insert_list_at:
  assumes la: "list_at w ps" and room: "length (heap w) < heap_limit w"
  shows "\<exists>w'. List_insert k w = Some (Inr 0, w') \<and>
     list_at w' (ps @ [Suc (length (heap w))]) \<and>
     size_fld w' = size_fld w \<and> heap_limit w' = heap_limit w \<and>
     length (heap w') = Suc (length (heap w)) \<and>
     links_kept (heap w) (heap w') \<and>
     map (key_at (heap w')) (ps @ [Suc (length (heap w))]) = map (key_at (heap w)) ps @ [k] \<and>
     events w' = events w @ (if ps = [] then [] else [Lock (last ps), Unlock (last ps)])"
proof (cases ps rule: rev_cases)
  case Nil
  let ?p = "Suc (length (heap w))"
  let ?N = "Some \<lparr>key = k, next_ptr = nullptr, n_lock = False\<rparr>"
  let ?w' = "w\<lparr>head := ?p, tail := ?p, heap := heap w @ [?N]\<rparr>"
  have t: "tail w = nullptr" using la Nil by (simp add: list_at_def)
  have ins: "List_insert k w = Some (Inr 0, ?w')" using t room by (rule insert_first)
  have "list_at ?w' [?p]"
    by (simp add: list_at_def cell_append_new)
  moreover have "links_kept (heap w) (heap ?w')"
    unfolding links_kept_iff
  proof (intro allI impI)
    fix a n assume c: "cell (heap w) a = Some n"
    from cell_Some_bounds[OF c] have "cell (heap ?w') a = Some n"
      using c by (simp add: cell_append_old)
    then show "\<exists>n'. cell (heap ?w') a = Some n' \<and> key n' = key n \<and>
           (next_ptr n \<noteq> nullptr \<longrightarrow> next_ptr n' = next_ptr n)"
      by simp
  qed
  moreover have "key_at (heap ?w') ?p = k"
    by (simp add: key_at_def cell_append_new)
  ultimately show ?thesis using ins Nil by simp
next
  case (snoc qs t)
  let ?p = "Suc (length (heap w))"
  let ?N = "Some \<lparr>key = k, next_ptr = nullptr, n_lock = False\<rparr>"
  have h: "path (heap w) (head w) (qs @ [t]) nullptr" "distinct (qs @ [t])" "tail w = t"
    using la snoc by (simp_all add: list_at_def)
  from h(1) obtain tn where tn: "path (heap w) (head w) qs t" "cell (heap w) t = Some tn"
    "\<not> n_lock tn" "next_ptr tn = nullptr"
    unfolding path_last by blast
  from cell_Some_bounds[OF tn(2)] have tb: "t \<noteq> nullptr" "t \<le> length (heap w)" by simp_all
  let ?h' = "(heap w @ [?N])[t - Suc 0 := Some (tn\<lparr>next_ptr := ?p\<rparr>)]"
  let ?w' = "w\<lparr>tail := ?p, heap := ?h', events := events w @ [Lock t, Unlock t]\<rparr>"
  have ins: "List_insert k w = Some (Inr 0, ?w')"
    using insert_later[of w tn k] tn(2,3) room h(3) by simp
  have old: "a \<noteq> t \<Longrightarrow> a \<le> length (heap w) \<Longrightarrow> cell ?h' a = cell (heap w) a" for a
    using tb by (simp add: cell_update_other cell_append_old)
  have ct: "cell ?h' t = Some (tn\<lparr>next_ptr := ?p\<rparr>)"
    using tb by (simp add: cell_update_same)
  have cp: "cell ?h' ?p = ?N"
    using tb by (simp add: cell_update_other cell_append_new)
  have fresh: "?p \<notin> set (qs @ [t])"
    using path_bounds[OF h(1), of ?p] by auto
  have "path ?h' (head w) qs t"
    using tn(1) h(2) tb by (simp add: path_update_other path_append_heap)
  moreover have "path ?h' t [t, ?p] nullptr"
    using ct cp tn(3) by simp
  ultimately have "path ?h' (head w) (qs @ [t, ?p]) nullptr"
    unfolding path_app by blast
  then have la': "list_at ?w' (ps @ [?p])"
    using h(2) fresh snoc by (simp add: list_at_def)
  have lk: "links_kept (heap w) (heap ?w')"
    unfolding links_kept_iff
  proof (intro allI impI)
    fix a n assume c: "cell (heap w) a = Some n"
    show "\<exists>n'. cell (heap ?w') a = Some n' \<and> key n' = key n \<and>
           (next_ptr n \<noteq> nullptr \<longrightarrow> next_ptr n' = next_ptr n)"
    proof (cases "a = t")
      case True
      then show ?thesis using c tn(2,4) ct by simp
    next
      case False
      then show ?thesis using c cell_Some_bounds[OF c] old[of a] by simp
    qed
  qed
  have "key_at ?h' a = key_at (heap w) a" if "a \<in> set qs" for a
  proof -
    have "a \<noteq> t" using that h(2) by auto
    moreover have "a \<le> length (heap w)" using path_bounds[OF h(1), of a] that by simp
    ultimately have "cell ?h' a = cell (heap w) a" by (rule old)
    then show ?thesis by (simp only: key_at_def)
  qed
  moreover have "key_at ?h' t = key_at (heap w) t"
    using ct tn(2) by (simp add: key_at_def)
  moreover have "key_at ?h' ?p = k"
    using cp by (simp add: key_at_def)
  ultimately have keys: "map (key_at (heap ?w')) (ps @ [?p]) = map (key_at (heap w)) ps @ [k]"
    using snoc by simp
  show ?thesis
    using ins la' lk keys snoc by simp
qed

subsection \<open>Runs\<close>

lemma lock_size:
  "lock p (w\<lparr>size_fld := v\<rparr>) = map_option (map_sum id (size_fld_update (\<lambda>_. v))) (lock p w)"
  by (simp add: lock_def split: option.splits)

lemma unlock_size:
  "unlock p (w\<lparr>size_fld := v\<rparr>) = map_sum id (size_fld_update (\<lambda>_. v)) (unlock p w)"
  by (simp add: unlock_def split: option.splits)

lemma insert_size:
  "List_insert k (w\<lparr>size_fld := v\<rparr>) =
     map_option (apsnd (size_fld_update (\<lambda>_. v))) (List_insert k w)"
  by (simp add: List_insert_def new_node_t_def lock_def unlock_def Let_def
      split: option.splits sum.splits)

lemma traverse_size:
  "path (heap w) (head w) ps nullptr \<Longrightarrow>
   List_traverse (w\<lparr>size_fld := v\<rparr>) =
     map_option (apsnd (size_fld_update (\<lambda>_. v))) (List_traverse w)"
  by (simp add: List_traverse_def traverse_loop_path)

lemma run_list_inv:
  "list_at w ps \<Longrightarrow>
   \<exists>w' ps'. run_list ops w = Some (Inr w') \<and> list_at w' ps' \<and>
     size_fld w' = size_fld w \<and> heap_limit w' = heap_limit w \<and>
     links_kept (heap w) (heap w') \<and>
     run_list ops (w\<lparr>size_fld := v\<rparr>) = Some (Inr (w'\<lparr>size_fld := v\<rparr>))"
proof (induction ops arbitrary: w ps)
  case Nil
  then show ?case by (auto simp: links_kept_refl)
next
  case (Cons x ops)
  show ?case
  proof (cases x)
    case (Insert k)
    show ?thesis
    proof (cases "length (heap w) < heap_limit w")
      case True
      from insert_list_at[OF Cons.prems True, of k] obtain w1 where
        w1: "List_insert k w = Some (Inr 0, w1)" "list_at w1 (ps @ [Suc (length (heap w))])"
          "size_fld w1 = size_fld w" "heap_limit w1 = heap_limit w"
          "links_kept (heap w) (heap w1)"
        by blast
      from Cons.IH[OF w1(2)] obtain w' ps' where
        w': "run_list ops w1 = Some (Inr w')" "list_at w' ps'" "size_fld w' = size_fld w1"
          "heap_limit w' = heap_limit w1" "links_kept (heap w1) (heap w')"
          "run_list ops (w1\<lparr>size_fld := v\<rparr>) = Some (Inr (w'\<lparr>size_fld := v\<rparr>))"
        by blast
      have "run_list (x # ops) w = Some (Inr w')"
        using Insert w1(1) w'(1) by simp
      moreover have "run_list (x # ops) (w\<lparr>size_fld := v\<rparr>) = Some (Inr (w'\<lparr>size_fld := v\<rparr>))"
        using Insert w1(1) w'(6) by (simp add: insert_size)
      ultimately show ?thesis
        using w'(2,3,4) w1(3,4) links_kept_trans[OF w1(5) w'(5)] by auto
    next
      case False
      from Cons.IH[OF Cons.prems] obtain w' ps' where
        w': "run_list ops w = Some (Inr w')" "list_at w' ps'" "size_fld w' = size_fld w"
          "heap_limit w' = heap_limit w" "links_kept (heap w) (heap w')"
          "run_list ops (w\<lparr>size_fld := v\<rparr>) = Some (Inr (w'\<lparr>size_fld := v\<rparr>))"
        by blast
      have "run_list (x # ops) w = Some (Inr w')"
        using Insert False w'(1) by (simp add: insert_throws)
      moreover have "run_list (x # ops) (w\<lparr>size_fld := v\<rparr>) = Some (Inr (w'\<lparr>size_fld := v\<rparr>))"
        using Insert False w'(6) by (simp add: insert_size insert_throws)
      ultimately show ?thesis using w'(2,3,4,5) by auto
    qed
  next
    case Traverse
    let ?w1 = "w\<lparr>events := events w @ visit_events (heap w) ps\<rparr>"
    have p: "path (heap w) (head w) ps nullptr" using Cons.prems by (simp add: list_at_def)
    have tr: "List_traverse w = Some (Inr (), ?w1)"
      using p by (simp add: List_traverse_def traverse_loop_path)
    have "list_at ?w1 ps" using Cons.prems by (simp add: list_at_def)
    from Cons.IH[OF this] obtain w' ps' where
      w': "run_list ops ?w1 = Some (Inr w')" "list_at w' ps'" "size_fld w' = size_fld ?w1"
        "heap_limit w' = heap_limit ?w1" "links_kept (heap ?w1) (heap w')"
        "run_list ops (?w1\<lparr>size_fld := v\<rparr>) = Some (Inr (w'\<lparr>size_fld := v\<rparr>))"
      by blast
    have "run_list (x # ops) w = Some (Inr w')"
      using Traverse tr w'(1) by simp
    moreover have "run_list (x # ops) (w\<lparr>size_fld := v\<rparr>) = Some (Inr (w'\<lparr>size_fld := v\<rparr>))"
      using Traverse tr w'(6) by (simp add: traverse_size[OF p])
    ultimately show ?thesis using w'(2,3,4,5) by auto
  qed
qed

lemma run_list_count:
  "list_at w ps \<Longrightarrow> length (heap w) = length ps \<Longrightarrow>
   \<exists>w' ps'. run_list ops w = Some (Inr w') \<and> list_at w' ps' \<and>
     length ps' = max (length ps) (min (length ps + count_inserts ops) (heap_limit w))"
proof (induction ops arbitrary: w ps)
  case Nil
  then show ?case by auto
next
  case (Cons x ops)
  show ?case
  proof (cases x)
    case (Insert k)
    show ?thesis
    proof (cases "length (heap w) < heap_limit w")
      case True
      from insert_list_at[OF Cons.prems(1) True, of k] obtain w1 where
        w1: "List_insert k w = Some (Inr 0, w1)" "list_at w1 (ps @ [Suc (length (heap w))])"
          "heap_limit w1 = heap_limit w" "length (heap w1) = Suc (length (heap w))"
        by blast
      have "length (heap w1) = length (ps @ [Suc (length (heap w))])"
        using w1(4) Cons.prems(2) by simp
      from Cons.IH[OF w1(2) this] obtain w' ps' where
        w': "run_list ops w1 = Some (Inr w')" "list_at w' ps'"
          "length ps' = max (length (ps @ [Suc (length (heap w))]))
             (min (length (ps @ [Suc (length (heap w))]) + count_inserts ops) (heap_limit w1))"
        by blast
      have "length ps' = max (length ps) (min (length ps + count_inserts (x # ops)) (heap_limit w))"
        using w'(3) w1(3) True Cons.prems(2) Insert by simp
      moreover have "run_list (x # ops) w = Some (Inr w')"
        using Insert w1(1) w'(1) by simp
      ultimately show ?thesis using w'(2) by blast
    next
      case False
      from Cons.IH[OF Cons.prems] obtain w' ps' where
        w': "run_list ops w = Some (Inr w')" "list_at w' ps'"
          "length ps' = max (length ps) (min (length ps + count_inserts ops) (heap_limit w))"
        by blast
      have "length ps' = max (length ps) (min (length ps + count_inserts (x # ops)) (heap_limit w))"
        using w'(3) False Cons.prems(2) Insert by simp
      moreover have "run_list (x # ops) w = Some (Inr w')"
        using Insert False w'(1) by (simp add: insert_throws)
      ultimately show ?thesis using w'(2) by blast
    qed
  next
    case Traverse
    let ?w1 = "w\<lparr>events := events w @ visit_events (heap w) ps\<rparr>"
    have p: "path (heap w) (head w) ps nullptr" using Cons.prems(1) by (simp add: list_at_def)
    have tr: "List_traverse w = Some (Inr (), ?w1)"
      using p by (simp add: List_traverse_def traverse_loop_path)
    have "list_at ?w1 ps" "length (heap ?w1) = length ps"
      using Cons.prems by (simp_all add: list_at_def)
    from Cons.IH[OF this] obtain w' ps' where
      w': "run_list ops ?w1 = Some (Inr w')" "list_at w' ps'"
        "length ps' = max (length ps) (min (length ps + count_inserts ops) (heap_limit ?w1))"
      by blast
    have "run_list (x # ops) w = Some (Inr w')"
      using Traverse tr w'(1) by simp
    then show ?thesis using w'(2,3) Traverse by auto
  qed
qed

lemma run_list_append:
  "run_list xs w = Some (Inr w1) \<Longrightarrow> run_list (xs @ ys) w = run_list ys w1"
  by (induction xs w rule: run_list.induct)
     (auto split: option.splits sum.splits prod.splits failure.splits)

lemma printed_append: "printed (xs @ ys) = printed xs @ printed ys"
  by (induction xs rule: printed.induct) auto

lemma printed_visit: "printed (visit_events h as) = map (key_at h) as"
  by (induction as) auto

lemma run_inserts_keys:
  "list_at w ps \<Longrightarrow>
   \<exists>w' ps'. run_list (map Insert ks) w = Some (Inr w') \<and> list_at w' ps' \<and>
     map (key_at (heap w')) ps' =
       map (key_at (heap w)) ps @ take (heap_limit w - length (heap w)) ks \<and>
     printed (events w') = printed (events w)"
proof (induction ks arbitrary: w ps)
  case Nil
  then show ?case by auto
next
  case (Cons k ks)
  show ?case
  proof (cases "length (heap w) < heap_limit w")
    case True
    from insert_list_at[OF Cons.prems True, of k] obtain w1 where
      w1: "List_insert k w = Some (Inr 0, w1)" "list_at w1 (ps @ [Suc (length (heap w))])"
        "heap_limit w1 = heap_limit w" "length (heap w1) = Suc (length (heap w))"
        "map (key_at (heap w1)) (ps @ [Suc (length (heap w))]) = map (key_at (heap w)) ps @ [k]"
        "events w1 = events w @ (if ps = [] then [] else [Lock (last ps), Unlock (last ps)])"
      by blast
    from Cons.IH[OF w1(2)] obtain w' ps' where
      w': "run_list (map Insert ks) w1 = Some (Inr w')" "list_at w' ps'"
        "map (key_at (heap w')) ps' =
           map (key_at (heap w1)) (ps @ [Suc (length (heap w))]) @
           take (heap_limit w1 - length (heap w1)) ks"
        "printed (events w') = printed (events w1)"
      by blast
    have "printed (events w1) = printed (events w)"
      using w1(6) by (simp add: printed_append)
    moreover have "heap_limit w - length (heap w) = Suc (heap_limit w1 - length (heap w1))"
      using True w1(3,4) by simp
    ultimately show ?thesis
      using w1(1,5) w' by auto
  next
    case False
    from Cons.IH[OF Cons.prems] obtain w' ps' where
      w': "run_list (map Insert ks) w = Some (Inr w')" "list_at w' ps'"
        "map (key_at (heap w')) ps' =
           map (key_at (heap w)) ps @ take (heap_limit w - length (heap w)) ks"
        "printed (events w') = printed (events w)"
      by blast
    have "run_list (map Insert (k # ks)) w = Some (Inr w')"
      using False w'(1) by (simp add: insert_throws)
    moreover have "heap_limit w - length (heap w) = 0" using False by simp
    ultimately show ?thesis using w'(2,3,4) by auto
  qed
qed

lemmas list_eval = List_insert_def new_node_t_def lock_def unlock_def cell_def List_ctor_def
  nullptr_def Let_def List_traverse_def traverse_loop.simps

text \<open>
  C3.  A run of \<open>insert\<close> calls with the keys \<open>ks\<close> on a new list, followed by
  \<open>traverse\<close>, returns, and the traversal prints exactly the keys that were appended, in
  the order of insertion: these are the keys of the calls that found room in the free
  store, the first \<open>L\<close> of them, and all of \<open>ks\<close> when there is room for every node.
  The witness is the program of \<open>main\<close>: \<open>insert(5); insert(6); traverse()\<close> prints 5
  and 6.
\<close>

theorem append_then_traverse:
  "\<exists>w. run_list (map Insert ks @ [Traverse]) (List_ctor L) = Some (Inr w) \<and>
     printed (events w) = take L ks \<and>
     (length ks \<le> L \<longrightarrow> printed (events w) = ks)"
proof -
  from run_inserts_keys[OF list_at_ctor, of ks L] obtain w1 ps where
    w1: "run_list (map Insert ks) (List_ctor L) = Some (Inr w1)" "list_at w1 ps"
      "map (key_at (heap w1)) ps = take L ks" "printed (events w1) = []"
    by (auto simp: List_ctor_def)
  let ?w = "w1\<lparr>events := events w1 @ visit_events (heap w1) ps\<rparr>"
  have "path (heap w1) (head w1) ps nullptr" using w1(2) by (simp add: list_at_def)
  then have "List_traverse w1 = Some (Inr (), ?w)"
    by (simp add: List_traverse_def traverse_loop_path)
  then have "run_list [Traverse] w1 = Some (Inr ?w)" by simp
  then have "run_list (map Insert ks @ [Traverse]) (List_ctor L) = Some (Inr ?w)"
    using run_list_append[OF w1(1)] by simp
  moreover have "printed (events ?w) = take L ks"
    using w1(3,4) by (simp add: printed_append printed_visit)
  ultimately show ?thesis by auto
qed

theorem append_then_traverse_witness:
  "\<exists>w. run_list [Insert 5, Insert 6, Traverse] (List_ctor 2) = Some (Inr w) \<and>
     printed (events w) = [5, 6]"
  using append_then_traverse [of "[5, 6]" 2] by simp

text \<open>
  C5.  \<open>insert\<close> never returns the failure code \<open>-1\<close>: the test
  \<open>new_node == nullptr\<close> cannot succeed after a plain new-expression.  When the free
  store is exhausted, as for \<open>insert(7)\<close> on a list whose free store holds no node, the
  call is left by \<open>std::bad_alloc\<close> and the list is unchanged.
\<close>

theorem insert_throws_bad_alloc:
  "List_insert k w \<noteq> Some (Inr (- 1), w') \<and>
   List_insert 7 (List_ctor 0) = Some (Inl (Thrown bad_alloc), List_ctor 0)"
proof
  show "List_insert k w \<noteq> Some (Inr (- 1), w')"
    by (auto simp: List_insert_def new_node_t_def lock_def unlock_def Let_def Suc_not_nullptr
        split: option.splits sum.splits if_splits)
  show "List_insert 7 (List_ctor 0) = Some (Inl (Thrown bad_alloc), List_ctor 0)"
    by (simp add: insert_throws List_ctor_def)
qed

text \<open>
  C7.  When \<open>insert\<close> is called on a list without a tail and the node can be allocated,
  it returns 0, the newly allocated node holds the key and a null \<open>next\<close> link and is
  both the head and the tail, and the call makes no mutex call: the trace of events is
  unchanged, and so is every node that existed before.
\<close>

theorem first_insert:
  assumes "tail w = nullptr" and "length (heap w) < heap_limit w"
  shows "\<exists>w' p. List_insert k w = Some (Inr 0, w') \<and> p \<noteq> nullptr \<and>
           cell (heap w) p = None \<and>
           cell (heap w') p = Some \<lparr>key = k, next_ptr = nullptr, n_lock = False\<rparr> \<and>
           head w' = p \<and> tail w' = p \<and> events w' = events w \<and>
           (\<forall>q. q \<noteq> p \<longrightarrow> cell (heap w') q = cell (heap w) q)"
proof -
  let ?p = "Suc (length (heap w))"
  let ?w' = "w\<lparr>head := ?p, tail := ?p,
      heap := heap w @ [Some \<lparr>key = k, next_ptr = nullptr, n_lock = False\<rparr>]\<rparr>"
  have "List_insert k w = Some (Inr 0, ?w')" using assms by (rule insert_first)
  moreover have "cell (heap w) ?p = None" by (simp add: cell_def)
  moreover have "cell (heap ?w') ?p = Some \<lparr>key = k, next_ptr = nullptr, n_lock = False\<rparr>"
    by (simp add: cell_append_new)
  moreover have "\<forall>q. q \<noteq> ?p \<longrightarrow> cell (heap ?w') q = cell (heap w) q"
    by (auto simp: cell_def nth_append nullptr_def)
  ultimately show ?thesis
    by (intro exI[of _ ?w'] exI[of _ ?p]) (simp add: Suc_not_nullptr)
qed

theorem first_insert_witness:
  "\<exists>w'. List_insert 5 (List_ctor 1) = Some (Inr 0, w') \<and>
     cell (heap w') 1 = Some \<lparr>key = 5, next_ptr = nullptr, n_lock = False\<rparr> \<and>
     head w' = 1 \<and> tail w' = 1 \<and> events w' = []"
proof -
  have "tail (List_ctor 1) = nullptr" "length (heap (List_ctor 1)) < heap_limit (List_ctor 1)"
    by (simp_all add: List_ctor_def)
  from first_insert [OF this, of 5] obtain w' p where
    w': "List_insert 5 (List_ctor 1) = Some (Inr 0, w')"
      "cell (heap w') p = Some \<lparr>key = 5, next_ptr = nullptr, n_lock = False\<rparr>"
      "head w' = p" "tail w' = p" "events w' = events (List_ctor 1)"
    by blast
  have "head w' = 1" using w'(1) by (auto simp: list_eval)
  with w' show ?thesis by (auto simp: List_ctor_def)
qed

text \<open>
  C8.  Take any state \<open>w\<close> that a sequence of \<open>insert\<close> and \<open>traverse\<close> calls reaches from
  a new list, and any state \<open>w'\<close> that a further sequence reaches from \<open>w\<close> (both runs
  return).  Every node of \<open>w\<close> is a node of \<open>w'\<close> with the same key, and a \<open>next\<close> link
  that pointed to a successor in \<open>w\<close> is the same in \<open>w'\<close>: a link is set at most once
  and never back to null.
\<close>

theorem links_set_once:
  "\<exists>w w'. run_list ops1 (List_ctor L) = Some (Inr w) \<and> run_list ops2 w = Some (Inr w') \<and>
     links_kept (heap w) (heap w')"
proof -
  from run_list_inv[OF list_at_ctor, of ops1 L] obtain w ps where
    w: "run_list ops1 (List_ctor L) = Some (Inr w)" "list_at w ps" by blast
  from run_list_inv[OF w(2), of ops2] obtain w' where
    "run_list ops2 w = Some (Inr w')" "links_kept (heap w) (heap w')" by blast
  with w(1) show ?thesis by blast
qed

theorem links_set_once_witness:
  "\<exists>w w'. run_list [Insert 5, Insert 6] (List_ctor 3) = Some (Inr w) \<and>
     run_list [Traverse, Insert 7] w = Some (Inr w') \<and>
     cell (heap w) 1 = Some \<lparr>key = 5, next_ptr = 2, n_lock = False\<rparr> \<and>
     cell (heap w') 1 = Some \<lparr>key = 5, next_ptr = 2, n_lock = False\<rparr> \<and>
     cell (heap w) 2 = Some \<lparr>key = 6, next_ptr = nullptr, n_lock = False\<rparr> \<and>
     cell (heap w') 2 = Some \<lparr>key = 6, next_ptr = 3, n_lock = False\<rparr>"
proof -
  from links_set_once [of "[Insert 5, Insert 6]" 3 "[Traverse, Insert 7]"] obtain w w' where
    r: "run_list [Insert 5, Insert 6] (List_ctor 3) = Some (Inr w)"
      "run_list [Traverse, Insert 7] w = Some (Inr w')"
    by blast
  have "run_list [Insert 5, Insert 6] (List_ctor 3) =
      Some (Inr \<lparr>head = 1, tail = 2, size_fld = 1000,
        heap = [Some \<lparr>key = 5, next_ptr = 2, n_lock = False\<rparr>,
                Some \<lparr>key = 6, next_ptr = 0, n_lock = False\<rparr>],
        heap_limit = 3, events = [Lock 1, Unlock 1]\<rparr>)"
    by (simp add: list_eval)
  with r(1) have w: "w = \<lparr>head = 1, tail = 2, size_fld = 1000,
        heap = [Some \<lparr>key = 5, next_ptr = 2, n_lock = False\<rparr>,
                Some \<lparr>key = 6, next_ptr = 0, n_lock = False\<rparr>],
        heap_limit = 3, events = [Lock 1, Unlock 1]\<rparr>"
    by simp
  have "heap w' = [Some \<lparr>key = 5, next_ptr = 2, n_lock = False\<rparr>,
                Some \<lparr>key = 6, next_ptr = 3, n_lock = False\<rparr>,
                Some \<lparr>key = 7, next_ptr = 0, n_lock = False\<rparr>]"
    using r(2) unfolding w by (auto simp: list_eval)
  with r w show ?thesis by (auto simp: cell_def nullptr_def)
qed

text \<open>
  C9.  The \<open>size\<close> field is 1000 after construction, and is still 1000 after any
  sequence of \<open>insert\<close> and \<open>traverse\<close> calls and after the destructor, while the list
  holds as many nodes as \<open>insert\<close> calls found room for: the field does not follow the
  number of nodes, and equals it only when that number happens to be 1000.  None of the
  calls reads the field: started with any other value \<open>v\<close> in it, the same calls give
  the same result, with \<open>v\<close> still in the field.
\<close>

theorem size_untouched:
  "size_fld (List_ctor L) = 1000 \<and>
   (\<exists>w w' ps. run_list ops (List_ctor L) = Some (Inr w) \<and> size_fld w = 1000 \<and>
      list_at w ps \<and> length ps = min (count_inserts ops) L \<and>
      run_list ops ((List_ctor L)\<lparr>size_fld := v\<rparr>) = Some (Inr (w\<lparr>size_fld := v\<rparr>)) \<and>
      List_dtor w = Some (Inr w') \<and> size_fld w' = 1000 \<and>
      List_dtor (w\<lparr>size_fld := v\<rparr>) = Some (Inr (w'\<lparr>size_fld := v\<rparr>)))"
proof -
  have s: "size_fld (List_ctor L) = 1000" by (simp add: List_ctor_def)
  have "length (heap (List_ctor L)) = length ([] :: addr list)" by (simp add: List_ctor_def)
  from run_list_count[OF list_at_ctor this, of ops] obtain w ps where
    w: "run_list ops (List_ctor L) = Some (Inr w)" "list_at w ps"
      "length ps = min (count_inserts ops) L"
    by (auto simp: List_ctor_def)
  from run_list_inv[OF list_at_ctor, of ops L v] w(1) have
    w2: "size_fld w = size_fld (List_ctor L)"
      "run_list ops ((List_ctor L)\<lparr>size_fld := v\<rparr>) = Some (Inr (w\<lparr>size_fld := v\<rparr>))"
    by auto
  let ?w' = "w\<lparr>head := nullptr, heap := freed (heap w) ps\<rparr>"
  have p: "path (heap w) (head w) ps nullptr" "distinct ps"
    using w(2) by (simp_all add: list_at_def)
  have "List_dtor w = Some (Inr ?w')"
    using dtor_loop_path[OF p] by (simp add: List_dtor_def)
  moreover have "List_dtor (w\<lparr>size_fld := v\<rparr>) = Some (Inr (?w'\<lparr>size_fld := v\<rparr>))"
    using dtor_loop_path[of "w\<lparr>size_fld := v\<rparr>" ps] p by (simp add: List_dtor_def)
  ultimately show ?thesis using s w w2 by auto
qed

lemma path_reaches: "path h p (as @ [t]) q \<Longrightarrow> reaches h p t"
proof (induction as arbitrary: p)
  case Nil
  then show ?case by (auto split: option.splits intro: reaches.here)
next
  case (Cons a as)
  then show ?case by (auto split: option.splits intro: reaches.step)
qed

text \<open>
  C10.  Every sequence of \<open>insert\<close> (and \<open>traverse\<close>) calls on a new list returns, and
  in the state it reaches \<open>head\<close> is null exactly when \<open>tail\<close> is null; when they are
  not null, \<open>tail\<close> is reached from \<open>head\<close> by \<open>next\<close> links and the \<open>next\<close> link of
  \<open>tail\<close> is null.
\<close>

theorem head_tail_invariant:
  "\<exists>w. run_list ops (List_ctor L) = Some (Inr w) \<and>
     ((head w = nullptr) = (tail w = nullptr)) \<and>
     (head w \<noteq> nullptr \<longrightarrow>
        reaches (heap w) (head w) (tail w) \<and>
        (\<exists>n. cell (heap w) (tail w) = Some n \<and> next_ptr n = nullptr))"
proof -
  from run_list_inv[OF list_at_ctor, of ops L] obtain w ps where
    w: "run_list ops (List_ctor L) = Some (Inr w)" "list_at w ps" by blast
  have p: "path (heap w) (head w) ps nullptr" "tail w = (if ps = [] then nullptr else last ps)"
    using w(2) by (simp_all add: list_at_def)
  have "(head w = nullptr) = (tail w = nullptr) \<and>
     (head w \<noteq> nullptr \<longrightarrow>
        reaches (heap w) (head w) (tail w) \<and>
        (\<exists>n. cell (heap w) (tail w) = Some n \<and> next_ptr n = nullptr))"
  proof (cases ps rule: rev_cases)
    case Nil
    then show ?thesis using p by simp
  next
    case (snoc qs t)
    then have t: "tail w = t" using p(2) by simp
    from p(1)[unfolded snoc path_last] obtain n where
      n: "cell (heap w) t = Some n" "next_ptr n = nullptr"
      by blast
    have "reaches (heap w) (head w) t" using p(1) snoc by (auto intro: path_reaches)
    moreover have "t \<noteq> nullptr" using cell_Some_bounds[OF n(1)] by simp
    moreover have "head w \<noteq> nullptr"
      using p(1) snoc by (cases qs) (auto split: option.splits dest: cell_Some_bounds)
    ultimately show ?thesis using t n by auto
  qed
  with w(1) show ?thesis by blast
qed

theorem head_tail_invariant_witness:
  "\<exists>w. run_list [Insert 5, Insert 6] (List_ctor 2) = Some (Inr w) \<and>
     head w = 1 \<and> tail w = 2 \<and> reaches (heap w) 1 2 \<and>
     cell (heap w) 2 = Some \<lparr>key = 6, next_ptr = nullptr, n_lock = False\<rparr>"
proof -
  from head_tail_invariant [of "[Insert 5, Insert 6]" 2] obtain w where
    r: "run_list [Insert 5, Insert 6] (List_ctor 2) = Some (Inr w)"
      "head w \<noteq> nullptr \<longrightarrow> reaches (heap w) (head w) (tail w)"
    by blast
  have "run_list [Insert 5, Insert 6] (List_ctor 2) =
      Some (Inr \<lparr>head = 1, tail = 2, size_fld = 1000,
        heap = [Some \<lparr>key = 5, next_ptr = 2, n_lock = False\<rparr>,
                Some \<lparr>key = 6, next_ptr = 0, n_lock = False\<rparr>],
        heap_limit = 2, events = [Lock 1, Unlock 1]\<rparr>)"
    by (simp add: list_eval)
  with r(1) have w: "w = \<lparr>head = 1, tail = 2, size_fld = 1000,
        heap = [Some \<lparr>key = 5, next_ptr = 2, n_lock = False\<rparr>,
                Some \<lparr>key = 6, next_ptr = 0, n_lock = False\<rparr>],
        heap_limit = 2, events = [Lock 1, Unlock 1]\<rparr>"
    by simp
  then have "reaches (heap w) 1 2" using r(2) by (simp add: nullptr_def)
  with r(1) w show ?thesis by (simp add: cell_def nullptr_def)
qed

end
